theory Spec2Isabelle
  imports Complex_Main "HOL-Library.Word" "HOL-Library.Multiset"
begin

section \<open>Hierarchical attention network: a model of the notebook's code\<close>

text \<open>
  The notebook \<^verbatim>\<open>hierarchical_attention.ipynb\<close> defines the length probe
  \<^verbatim>\<open>get_sequence_lengths\<close>, the row filter \<^verbatim>\<open>get_nonzero_sequences\<close>, the
  attention pool \<^verbatim>\<open>SequenceClassifierAttention\<close> and the network
  \<^verbatim>\<open>HierarchicalAttentionNetwork\<close>. Tensors are lists (a row-major nesting of
  lists, one level per dimension), token indices are \<open>int\<close>, activations are
  \<open>real\<close> (the floating-point numbers of the tensor library are read as the reals
  they approximate), and every exception a library call can raise on the data is a
  value of type \<open>error\<close>.
\<close>

datatype error =
    AttributeError   \<comment> \<open>attribute lookup on a module that has no such attribute\<close>
  | IndexError       \<comment> \<open>an index outside the indexed dimension\<close>
  | PackError        \<comment> \<open>\<^verbatim>\<open>pack_padded_sequence\<close> rejects its arguments\<close>
  | CatError         \<comment> \<open>\<^verbatim>\<open>torch.cat\<close> of an empty list of tensors\<close>

subsection \<open>\<^verbatim>\<open>get_sequence_lengths\<close>\<close>

text \<open>
  \<^verbatim>\<open>
  def get_seq_len(sequence):
      seq_len = 0
      for n, item in enumerate(sequence, 1):
          if item == padding_value:
              break
          seq_len = n
      return seq_len
  \<close>
  The loop carries the counter \<open>n\<close> of \<^verbatim>\<open>enumerate(sequence, 1)\<close> and the
  variable \<open>seq_len\<close>; \<^verbatim>\<open>break\<close> returns the current \<open>seq_len\<close>.
\<close>

fun get_seq_len_loop :: "int \<Rightarrow> nat \<Rightarrow> nat \<Rightarrow> int list \<Rightarrow> nat" where
  "get_seq_len_loop padding_value n seq_len [] = seq_len"
| "get_seq_len_loop padding_value n seq_len (item # rest) =
     (if item = padding_value then seq_len
      else get_seq_len_loop padding_value (Suc n) n rest)"

definition get_seq_len :: "int \<Rightarrow> int list \<Rightarrow> nat" where
  "get_seq_len padding_value sequence = get_seq_len_loop padding_value 1 0 sequence"

definition get_sequence_lengths :: "int list list \<Rightarrow> int \<Rightarrow> nat list" where
  "get_sequence_lengths sequences padding_value = map (get_seq_len padding_value) sequences"

subsection \<open>Results that may raise\<close>

definition bind_err :: "error + 'a \<Rightarrow> ('a \<Rightarrow> error + 'b) \<Rightarrow> error + 'b" where
  "bind_err m f = (case m of Inl e \<Rightarrow> Inl e | Inr x \<Rightarrow> f x)"

subsection \<open>Tensor operations of the library, on lists\<close>

text \<open>
  \<^verbatim>\<open>torch.nonzero(lengths).view(-1)\<close>: the indices of the non-zero entries of a
  one-dimensional tensor, in ascending order, flattened to one dimension.
\<close>

definition torch_nonzero :: "nat list \<Rightarrow> nat list" where
  "torch_nonzero lengths = filter (\<lambda>i. lengths ! i \<noteq> 0) [0..<length lengths]"

text \<open>
  \<^verbatim>\<open>t[indexes]\<close> with a one-dimensional index tensor selects the rows of \<open>t\<close> at
  the indices, in the order of the indices; an index outside \<open>t\<close> raises.
\<close>

definition index_select :: "'a list \<Rightarrow> nat list \<Rightarrow> error + 'a list" where
  "index_select t indexes =
     (if list_all (\<lambda>i. i < length t) indexes then Inr (map (\<lambda>i. t ! i) indexes)
      else Inl IndexError)"

text \<open>
  \<^verbatim>\<open>indexes.dim()\<close> for the result of \<^verbatim>\<open>view(-1)\<close>: such a tensor has one
  dimension whatever the number of its elements (none, one or many).
\<close>

definition tensor_dim :: "nat list \<Rightarrow> nat" where
  "tensor_dim indexes = 1"

text \<open>
  \<^verbatim>\<open>torch.sort(t, descending=...)\<close> returns the sorted values and, for each, the
  index it had in \<open>t\<close>. Equal values are kept in their original order here; the
  library leaves their order open, and no property below depends on it.
\<close>

definition torch_sort :: "nat list \<Rightarrow> bool \<Rightarrow> nat list \<times> nat list" where
  "torch_sort t descending =
     (let ps = sort_key (\<lambda>p. if descending then - int (fst p) else int (fst p))
                 (zip t [0..<length t])
      in (map fst ps, map snd ps))"

text \<open>
  \<^verbatim>\<open>nn.Embedding\<close> applied to a batch of token rows: the row of the weight table
  for every token (padding positions included); a token outside the table raises.
\<close>

definition embedding :: "real list list \<Rightarrow> int list list \<Rightarrow> error + real list list list" where
  "embedding weight input =
     (if list_all (list_all (\<lambda>t. 0 \<le> t \<and> nat t < length weight)) input
      then Inr (map (map (\<lambda>t. weight ! nat t)) input)
      else Inl IndexError)"

text \<open>
  \<^verbatim>\<open>pack_padded_sequence(input, lengths, batch_first=True)\<close>: a packed sequence is
  modelled as the list of the rows, each cut to its own length. The library rejects an
  empty batch, a length list of another size than the batch, a length that is not
  positive, lengths that are not in decreasing order and a length beyond the row.
\<close>

definition pack_padded_sequence :: "'a list list \<Rightarrow> nat list \<Rightarrow> error + 'a list list" where
  "pack_padded_sequence input lengths =
     (if input = [] then Inl PackError
      else if length lengths \<noteq> length input then Inl PackError
      else if \<not> list_all (\<lambda>l. 0 < l) lengths then Inl PackError
      else if \<not> sorted (rev lengths) then Inl PackError
      else if \<not> list_all (\<lambda>(l, row). l \<le> length row) (zip lengths input) then Inl PackError
      else Inr (map (\<lambda>(l, row). take l row) (zip lengths input)))"

text \<open>
  \<^verbatim>\<open>pad_packed_sequence(packed, batch_first=True)\<close>: every sequence is filled with
  zero vectors up to the longest one of the batch; the second component is the list of
  the lengths. \<open>features\<close> is the feature size of the packed data.
\<close>

definition pad_packed_sequence :: "nat \<Rightarrow> real list list list \<Rightarrow> real list list list \<times> nat list" where
  "pad_packed_sequence features packed =
     (let lengths = map length packed;
          max_len = foldr max lengths 0
      in (map (\<lambda>s. s @ replicate (max_len - length s) (replicate features 0)) packed,
          lengths))"

text \<open>
  \<^verbatim>\<open>nn.GRU(..., bidirectional=True, batch_first=True)\<close>. The gate arithmetic of a
  cell is a parameter (a function from the input vector and the previous hidden state
  to the next hidden state, one for each direction); the recurrence is the library's:
  the forward cell runs over the timesteps from the first, the backward cell from the
  last, both from the zero state, and the output at a timestep is the concatenation of
  the two hidden states there. A cell returns a vector of \<open>hidden_size\<close> entries.
\<close>

record gru =
  hidden_size :: nat
  cell_fw :: "real list \<Rightarrow> real list \<Rightarrow> real list"
  cell_bw :: "real list \<Rightarrow> real list \<Rightarrow> real list"

fun gru_scan :: "(real list \<Rightarrow> real list \<Rightarrow> real list) \<Rightarrow> real list \<Rightarrow> real list list \<Rightarrow> real list list" where
  "gru_scan cell h [] = []"
| "gru_scan cell h (x # xs) = cell x h # gru_scan cell (cell x h) xs"

definition gru_sequence :: "gru \<Rightarrow> real list list \<Rightarrow> real list list" where
  "gru_sequence g xs =
     (let h0 = replicate (hidden_size g) 0
      in map (\<lambda>(f, b). f @ b)
           (zip (gru_scan (cell_fw g) h0 xs) (rev (gru_scan (cell_bw g) h0 (rev xs)))))"

text \<open>A two-dimensional tensor of activations with its second dimension kept
  (\<^verbatim>\<open>shape[1]\<close> is defined also when there is no row).\<close>

record tensor2 =
  t_cols :: nat
  t_rows :: "real list list"

subsection \<open>\<^verbatim>\<open>SequenceClassifierAttention\<close>\<close>

record attention =
  mlp_weight :: "real list list"
  mlp_bias :: "real list"
  u_w :: "real list"
  batch_first :: bool

definition dot :: "real list \<Rightarrow> real list \<Rightarrow> real" where
  "dot u v = sum_list (map (\<lambda>(a, b). a * b) (zip u v))"

text \<open>\<^verbatim>\<open>nn.Linear\<close>: one output per row of the weight matrix, plus the bias.\<close>

definition linear_layer :: "real list list \<Rightarrow> real list \<Rightarrow> real list \<Rightarrow> real list" where
  "linear_layer weight bias x = map (\<lambda>(w, b). dot w x + b) (zip weight bias)"

text \<open>\<^verbatim>\<open>F.softmax\<close> along one dimension.\<close>

definition softmax :: "real list \<Rightarrow> real list" where
  "softmax zs = map (\<lambda>z. exp z / sum_list (map exp zs)) zs"

text \<open>\<^verbatim>\<open>torch.sum(weighted_sequence, dim=1)\<close> for one row: the sum of its timestep
  vectors, a vector of \<open>features\<close> entries.\<close>

definition sum_timesteps :: "nat \<Rightarrow> real list list \<Rightarrow> real list" where
  "sum_timesteps features vs =
     foldr (\<lambda>v acc. map (\<lambda>(a, b). a + b) (zip v acc)) vs (replicate features 0)"

text \<open>
  \<^verbatim>\<open>
  def forward(self, X):
      if not self.batch_first:
          X = X.transpose(1, 0)
      u_it = F.tanh(self.mlp(X))
      alpha = F.softmax(torch.matmul(u_it, self.u_w), dim=1)
      weighted_sequence = X * alpha.unsqueeze(2)
      out = torch.sum(weighted_sequence, dim=1)
      return out, alpha
  \<close>
  \<open>X\<close> is (rows, timesteps, features); the sizes of the second and third dimension
  are read off the first row and its first vector.
\<close>

definition attention_forward :: "attention \<Rightarrow> real list list list \<Rightarrow> tensor2 \<times> tensor2" where
  "attention_forward self X0 =
     (let X = (if \<not> batch_first self then transpose X0 else X0);
          timesteps = (case X of [] \<Rightarrow> 0 | r # _ \<Rightarrow> length r);
          features = (case X of (v # _) # _ \<Rightarrow> length v | _ \<Rightarrow> 0);
          u_it = map (map (\<lambda>x. map tanh (linear_layer (mlp_weight self) (mlp_bias self) x))) X;
          alpha = map (\<lambda>us. softmax (map (\<lambda>u. dot u (u_w self)) us)) u_it;
          weighted_sequence = map (\<lambda>(xs, as). map (\<lambda>(x, a). map (\<lambda>v. v * a) x) (zip xs as)) (zip X alpha);
          out = map (sum_timesteps features) weighted_sequence
      in (\<lparr>t_cols = features, t_rows = out\<rparr>, \<lparr>t_cols = timesteps, t_rows = alpha\<rparr>))"

subsection \<open>\<^verbatim>\<open>get_nonzero_sequences\<close>\<close>

text \<open>
  \<^verbatim>\<open>
  def get_nonzero_sequences(sequences, lengths):
      indexes = torch.nonzero(lengths).view(-1)
      nonzero_seqs = sequences[indexes]
      return nonzero_seqs, indexes
  \<close>
\<close>

definition get_nonzero_sequences :: "'a list \<Rightarrow> nat list \<Rightarrow> error + ('a list \<times> nat list)" where
  "get_nonzero_sequences sequences lengths =
     (let indexes = torch_nonzero lengths
      in bind_err (index_select sequences indexes) (\<lambda>nonzero_seqs. Inr (nonzero_seqs, indexes)))"

subsection \<open>\<^verbatim>\<open>HierarchicalAttentionNetwork\<close>\<close>

text \<open>
  The learned parameters of the network. The shapes of the layers are fixed by the
  constructor from \<open>n_hidden\<close>, \<open>embedding_dim\<close> and \<open>n_classes\<close> and agree with
  each other; the model does not check them again. \<open>padding_idx\<close> is the padding
  index the embedding was built with (the notebook passes the vocabulary's index of the
  pad token).
\<close>

record han =
  embed_weight :: "real list list"
  padding_idx :: int
  word_encoder :: gru
  word_attention :: attention
  sentence_encoder :: gru
  sentence_attention :: attention
  out_weight :: "real list list"
  out_bias :: "real list"

text \<open>
  The constructor. \<open>fresh\<close> holds the layers as their own constructors initialise
  them (random values). Attribute lookup on the embedding module finds its parameter
  \<open>weight\<close> and its configuration; any other name raises \<^verbatim>\<open>AttributeError\<close>.
  \<^verbatim>\<open>copy_\<close> overwrites the weight table with the table supplied.
  \<^verbatim>\<open>
  self.embed = nn.Embedding(vocab_size, embedding_dim, padding_idx=padding_idx)
  if embedding_weights is not None:
      self.embed.data.weight.copy_(embedding_weights)
  \<close>
\<close>

datatype attr_value = Parameter "real list list" | Number int

definition embedding_getattr :: "han \<Rightarrow> string \<Rightarrow> error + attr_value" where
  "embedding_getattr self name =
     (if name = ''weight'' then Inr (Parameter (embed_weight self))
      else if name = ''padding_idx'' then Inr (Number (padding_idx self))
      else if name = ''num_embeddings'' then Inr (Number (int (length (embed_weight self))))
      else if name = ''embedding_dim'' then
        Inr (Number (case embed_weight self of [] \<Rightarrow> 0 | v # _ \<Rightarrow> int (length v)))
      else Inl AttributeError)"

text \<open>Attributes of an attribute: a parameter has its tensor as \<open>data\<close>; nothing
  here has an attribute \<open>weight\<close>.\<close>

definition attr_getattr :: "attr_value \<Rightarrow> string \<Rightarrow> error + attr_value" where
  "attr_getattr v name =
     (case v of
        Parameter w \<Rightarrow> if name = ''data'' then Inr (Parameter w) else Inl AttributeError
      | Number n \<Rightarrow> Inl AttributeError)"

definition init :: "han \<Rightarrow> real list list option \<Rightarrow> error + han" where
  "init fresh embedding_weights =
     (case embedding_weights of
        None \<Rightarrow> Inr fresh
      | Some table \<Rightarrow>
          bind_err (embedding_getattr fresh ''data'') (\<lambda>data.
          bind_err (attr_getattr data ''weight'') (\<lambda>weight.
          Inr (fresh\<lparr>embed_weight := table\<rparr>))))"

text \<open>
  \<^verbatim>\<open>
  def _repack_with_zero_seqs(*, seq_vectors, batch_size, indexes_nonzero):
      encoded_dim = seq_vectors.shape[1]
      repacked_seqs = [torch.zeros(encoded_dim, ...).unsqueeze(0)
                       for _ in range(batch_size)]
      for seq_vector, index in zip(seq_vectors, indexes_nonzero):
          repacked_seqs[index] = seq_vector.unsqueeze(0)
      repacked_seqs = torch.cat(repacked_seqs)
      return repacked_seqs
  \<close>
  The assignment to a Python list raises for an index beyond the list; the indexes are
  row indices (\<open>nat\<close>). \<^verbatim>\<open>torch.cat\<close> raises on an empty list.
\<close>

fun assign_rows :: "real list list \<Rightarrow> (real list \<times> nat) list \<Rightarrow> error + real list list" where
  "assign_rows repacked_seqs [] = Inr repacked_seqs"
| "assign_rows repacked_seqs ((seq_vector, index) # rest) =
     (if index < length repacked_seqs
      then assign_rows (repacked_seqs[index := seq_vector]) rest
      else Inl IndexError)"

definition repack_with_zero_seqs :: "tensor2 \<Rightarrow> nat \<Rightarrow> nat list \<Rightarrow> error + tensor2" where
  "repack_with_zero_seqs seq_vectors batch_size indexes_nonzero =
     (let encoded_dim = t_cols seq_vectors;
          repacked_seqs = replicate batch_size (replicate encoded_dim 0)
      in bind_err (assign_rows repacked_seqs (zip (t_rows seq_vectors) indexes_nonzero))
           (\<lambda>repacked_seqs.
              if repacked_seqs = [] then Inl CatError
              else Inr \<lparr>t_cols = encoded_dim, t_rows = repacked_seqs\<rparr>))"

text \<open>
  The token batch \<open>X\<close>: a three-dimensional integer tensor with its shape
  (\<open>batch_size\<close>, \<open>n_sents\<close>, \<open>n_words\<close>).
\<close>

record token_batch =
  shape0 :: nat
  shape1 :: nat
  shape2 :: nat
  tokens :: "int list list list"

definition wf_batch :: "token_batch \<Rightarrow> bool" where
  "wf_batch X =
     (length (tokens X) = shape0 X
      \<and> list_all (\<lambda>doc. length doc = shape1 X \<and> list_all (\<lambda>sent. length sent = shape2 X) doc)
           (tokens X))"

text \<open>\<^verbatim>\<open>X[:,i,:]\<close>: the \<open>i\<close>-th sentence of every document.\<close>

definition slot :: "token_batch \<Rightarrow> nat \<Rightarrow> int list list" where
  "slot X i = map (\<lambda>doc. doc ! i) (tokens X)"

text \<open>
  The body of the loop of \<^verbatim>\<open>encode_sentences_words\<close>, first part: from the lengths
  to the encoded words in their original order.
  \<^verbatim>\<open>
  lengths = get_sequence_lengths(sentence_words, self.embed.padding_idx)
  sentence_words_nonzero, indexes_nonzero = get_nonzero_sequences(sentence_words, lengths)
  lengths_nonzero = lengths[indexes_nonzero]
  if indexes_nonzero.dim() > 0:
      sorted_lengths, sorted_indices = torch.sort(lengths_nonzero, descending=True)
      sentence_words = sentence_words_nonzero[sorted_indices]
  else:
      sorted_lengths, sorted_indices = lengths_nonzero, indexes_nonzero
      sentence_words = sentence_words_nonzero.unsqueeze(0)
  words_embedded = self.embed(sentence_words)
  words_embedded = pack_padded_sequence(words_embedded, sorted_lengths, batch_first=True)
  words_encoded, _ = self.word_encoder(words_embedded)
  words_encoded, sorted_lengths = pad_packed_sequence(words_encoded, batch_first=True)
  _, unsorted_indices = torch.sort(sorted_indices)
  words_encoded = words_encoded[unsorted_indices]
  \<close>
  The \<^verbatim>\<open>if\<close> statement is \<open>sort_nonzero\<close>. In its \<^verbatim>\<open>else\<close> branch the rows
  are taken as they are, with no sort: on lists, the rows selected by the indexes
  already are the batch that \<^verbatim>\<open>unsqueeze(0)\<close> builds from a single selected row.
\<close>

definition sort_nonzero ::
  "nat list \<Rightarrow> nat list \<Rightarrow> 'a list \<Rightarrow> error + (nat list \<times> nat list \<times> 'a list)" where
  "sort_nonzero lengths_nonzero indexes_nonzero sentence_words_nonzero =
     (if tensor_dim indexes_nonzero > 0 then
        (let (sorted_lengths, sorted_indices) = torch_sort lengths_nonzero True
         in bind_err (index_select sentence_words_nonzero sorted_indices)
              (\<lambda>sentence_words. Inr (sorted_lengths, sorted_indices, sentence_words)))
      else Inr (lengths_nonzero, indexes_nonzero, sentence_words_nonzero))"

definition encode_words :: "han \<Rightarrow> int list list \<Rightarrow> error + (real list list list \<times> nat list)" where
  "encode_words self sentence_words0 =
     (let lengths = get_sequence_lengths sentence_words0 (padding_idx self) in
      bind_err (get_nonzero_sequences sentence_words0 lengths)
        (\<lambda>(sentence_words_nonzero, indexes_nonzero).
      bind_err (index_select lengths indexes_nonzero) (\<lambda>lengths_nonzero.
      bind_err (sort_nonzero lengths_nonzero indexes_nonzero sentence_words_nonzero)
        (\<lambda>(sorted_lengths, sorted_indices, sentence_words).
      bind_err (embedding (embed_weight self) sentence_words) (\<lambda>words_embedded.
      bind_err (pack_padded_sequence words_embedded sorted_lengths) (\<lambda>words_packed.
        let words_encoded = map (gru_sequence (word_encoder self)) words_packed;
            (words_encoded, sorted_lengths) =
               pad_packed_sequence (2 * hidden_size (word_encoder self)) words_encoded;
            (_, unsorted_indices) = torch_sort sorted_indices False
        in bind_err (index_select words_encoded unsorted_indices)
             (\<lambda>words_encoded. Inr (words_encoded, indexes_nonzero))))))))"

text \<open>
  Second part of the body: the attention pool and the two repackings.
  \<^verbatim>\<open>
  sentence_vector, sentence_alpha = self.word_attention(words_encoded)
  sentence_vector = self._repack_with_zero_seqs(seq_vectors=sentence_vector,
                        batch_size=batch_size, indexes_nonzero=indexes_nonzero)
  sentence_alpha = self._repack_with_zero_seqs(seq_vectors=sentence_alpha,
                        batch_size=batch_size, indexes_nonzero=indexes_nonzero)
  \<close>
\<close>

definition encode_slot :: "han \<Rightarrow> nat \<Rightarrow> int list list \<Rightarrow> error + (tensor2 \<times> tensor2 \<times> nat list)" where
  "encode_slot self batch_size sentence_words =
     bind_err (encode_words self sentence_words) (\<lambda>(words_encoded, indexes_nonzero).
       let (sentence_vector, sentence_alpha) = attention_forward (word_attention self) words_encoded
       in bind_err (repack_with_zero_seqs sentence_vector batch_size indexes_nonzero)
            (\<lambda>sentence_vector.
          bind_err (repack_with_zero_seqs sentence_alpha batch_size indexes_nonzero)
            (\<lambda>sentence_alpha. Inr (sentence_vector, sentence_alpha, indexes_nonzero))))"

text \<open>
  \<^verbatim>\<open>
  for index in indexes_nonzero:
      sentence_lengths[index] += 1
  \<close>
  \<open>sentence_lengths\<close> is a tensor of 32-bit integers; the addition wraps.
\<close>

fun increment_lengths :: "32 word list \<Rightarrow> nat list \<Rightarrow> error + 32 word list" where
  "increment_lengths sentence_lengths [] = Inr sentence_lengths"
| "increment_lengths sentence_lengths (index # rest) =
     (if index < length sentence_lengths
      then increment_lengths (sentence_lengths[index := sentence_lengths ! index + 1]) rest
      else Inl IndexError)"

text \<open>
  The loop \<^verbatim>\<open>for i in range(n_sents)\<close> over the slots still to do, with the
  three accumulators \<open>encoded_sents_word\<close>, \<open>sentence_alphas\<close> and
  \<open>sentence_lengths\<close>.
\<close>

fun slots_loop ::
  "han \<Rightarrow> token_batch \<Rightarrow> nat list \<Rightarrow> tensor2 list \<times> tensor2 list \<times> 32 word list
     \<Rightarrow> error + (tensor2 list \<times> tensor2 list \<times> 32 word list)" where
  "slots_loop self X [] acc = Inr acc"
| "slots_loop self X (i # rest) (encoded_sents_word, sentence_alphas, sentence_lengths) =
     bind_err (encode_slot self (shape0 X) (slot X i))
       (\<lambda>(sentence_vector, sentence_alpha, indexes_nonzero).
     bind_err (increment_lengths sentence_lengths indexes_nonzero) (\<lambda>sentence_lengths.
       slots_loop self X rest
         (encoded_sents_word @ [sentence_vector], sentence_alphas @ [sentence_alpha],
          sentence_lengths)))"

text \<open>
  \<^verbatim>\<open>torch.cat(encoded_sents_word, dim=1)\<close> of the slots' (batch_size, 1, features)
  tensors: for each document the list of its sentence vectors, one per slot. An empty
  list raises.
\<close>

definition torch_cat_dim1 :: "tensor2 list \<Rightarrow> error + real list list list" where
  "torch_cat_dim1 ts =
     (case ts of
        [] \<Rightarrow> Inl CatError
      | t # _ \<Rightarrow> Inr (map (\<lambda>b. map (\<lambda>u. t_rows u ! b) ts) [0..<length (t_rows t)]))"

definition encode_sentences_words ::
  "han \<Rightarrow> token_batch \<Rightarrow> error + (real list list list \<times> tensor2 list \<times> 32 word list)" where
  "encode_sentences_words self X =
     (let batch_size = shape0 X; n_sents = shape1 X;
          sentence_lengths = replicate batch_size 0
      in bind_err (slots_loop self X [0..<n_sents] ([], [], sentence_lengths))
           (\<lambda>(encoded_sents_word, sentence_alphas, sentence_lengths).
         bind_err (torch_cat_dim1 encoded_sents_word) (\<lambda>encoded_sents_word.
           Inr (encoded_sents_word, sentence_alphas, sentence_lengths))))"

text \<open>
  \<^verbatim>\<open>
  def forward(self, X):
      encoded_sents_word, sentence_alphas, sentence_lengths = self.encode_sentences_words(X)
      encoded_sents, _ = self.sentence_encoder(encoded_sents_word)
      encoded_docs, document_alpha = self.sentence_attention(encoded_sents)
      out = self.out(encoded_docs)
      return out, sentence_alphas, document_alpha
  \<close>
  The sentence encoder is given the padded tensor itself, so it runs over all the
  timesteps of every row.
\<close>

definition forward ::
  "han \<Rightarrow> token_batch \<Rightarrow> error + (real list list \<times> tensor2 list \<times> tensor2)" where
  "forward self X =
     bind_err (encode_sentences_words self X)
       (\<lambda>(encoded_sents_word, sentence_alphas, sentence_lengths).
          let encoded_sents = map (gru_sequence (sentence_encoder self)) encoded_sents_word;
              (encoded_docs, document_alpha) =
                 attention_forward (sentence_attention self) encoded_sents;
              out = map (linear_layer (out_weight self) (out_bias self)) (t_rows encoded_docs)
          in Inr (out, sentence_alphas, document_alpha))"

subsection \<open>Reference functions for the statements\<close>

text \<open>The longest measured length of a slot, and what the word encoder makes of one
  row on its own: the row cut at its measured length, embedded, run through the
  bidirectional encoder and filled with zero vectors up to \<open>max_len\<close> timesteps.\<close>

definition slot_max_len :: "nat list \<Rightarrow> nat" where
  "slot_max_len lengths = foldr max lengths 0"

definition row_encoding :: "han \<Rightarrow> nat \<Rightarrow> int list \<Rightarrow> real list list" where
  "row_encoding self max_len row =
     (let encoded = gru_sequence (word_encoder self)
                      (map (\<lambda>t. embed_weight self ! nat t)
                         (take (get_seq_len (padding_idx self) row) row))
      in encoded @ replicate (max_len - length encoded)
                     (replicate (2 * hidden_size (word_encoder self)) 0))"

text \<open>Every token of the rows is an index into the embedding table.\<close>

definition in_vocab :: "han \<Rightarrow> int list list \<Rightarrow> bool" where
  "in_vocab self sentence_words =
     list_all (list_all (\<lambda>t. 0 \<le> t \<and> nat t < length (embed_weight self))) sentence_words"

text \<open>The attention pools of a network are batch-first, as the constructor builds
  them (\<^verbatim>\<open>batch_first=True\<close> for both).\<close>

definition constructed :: "han \<Rightarrow> bool" where
  "constructed self = (batch_first (word_attention self) \<and> batch_first (sentence_attention self))"

text \<open>The measured word lengths of a slot, and the attention score of a timestep
  vector.\<close>

definition slot_lengths :: "han \<Rightarrow> token_batch \<Rightarrow> nat \<Rightarrow> nat list" where
  "slot_lengths self X i = get_sequence_lengths (slot X i) (padding_idx self)"

definition score :: "attention \<Rightarrow> real list \<Rightarrow> real" where
  "score a x = dot (map tanh (linear_layer (mlp_weight a) (mlp_bias a) x)) (u_w a)"

text \<open>Conditions on a token batch: every token is an index into the embedding table;
  every slot has a document whose sentence there is not empty. \<open>sentence_count\<close> is
  the number of slots at which document \<open>b\<close> has a sentence of measured length
  greater than 0.\<close>

definition tokens_in_vocab :: "han \<Rightarrow> token_batch \<Rightarrow> bool" where
  "tokens_in_vocab self X = list_all (in_vocab self) (tokens X)"

definition every_slot_used :: "han \<Rightarrow> token_batch \<Rightarrow> bool" where
  "every_slot_used self X =
     list_all (\<lambda>i. list_ex (\<lambda>doc. 0 < get_seq_len (padding_idx self) (doc ! i)) (tokens X))
       [0..<shape1 X]"

definition sentence_count :: "han \<Rightarrow> token_batch \<Rightarrow> nat \<Rightarrow> nat" where
  "sentence_count self X b =
     length (filter (\<lambda>i. 0 < get_seq_len (padding_idx self) (tokens X ! b ! i)) [0..<shape1 X])"

subsection \<open>A small network and small batches\<close>

text \<open>
  A network with a vocabulary of ten tokens, padding index 1, embedding size 1 and
  hidden size 1. All its weights are zero, but the cells of the sentence encoder add
  one to every entry of the hidden state, so that the hidden state counts the timesteps
  the cell has run over.
\<close>

definition example_attention :: attention where
  "example_attention =
     \<lparr>mlp_weight = [[0, 0], [0, 0]], mlp_bias = [0, 0], u_w = [0, 0], batch_first = True\<rparr>"

definition example_net :: han where
  "example_net =
     \<lparr>embed_weight = replicate 10 [0],
      padding_idx = 1,
      word_encoder = \<lparr>hidden_size = 1, cell_fw = (\<lambda>x h. [0]), cell_bw = (\<lambda>x h. [0])\<rparr>,
      word_attention = example_attention,
      sentence_encoder =
        \<lparr>hidden_size = 1, cell_fw = (\<lambda>x h. map (\<lambda>v. v + 1) h),
         cell_bw = (\<lambda>x h. map (\<lambda>v. v + 1) h)\<rparr>,
      sentence_attention = example_attention,
      out_weight = [[1, 0]],
      out_bias = [0]\<rparr>"

text \<open>Two documents of two sentence slots and two words: the first has both
  sentences, the second has its second slot fully padded.\<close>

definition two_documents :: token_batch where
  "two_documents =
     \<lparr>shape0 = 2, shape1 = 2, shape2 = 2, tokens = [[[5, 7], [5, 1]], [[5, 7], [1, 1]]]\<rparr>"

text \<open>Two documents whose second slot is fully padded in both.\<close>

definition empty_second_slot :: token_batch where
  "empty_second_slot =
     \<lparr>shape0 = 2, shape1 = 2, shape2 = 2, tokens = [[[5, 7], [1, 1]], [[5, 1], [1, 1]]]\<rparr>"

section \<open>Properties\<close>

subsection \<open>The length probe\<close>

lemma get_seq_len_loop_takeWhile:
  "get_seq_len_loop p (Suc k) k xs = k + length (takeWhile (\<lambda>x. x \<noteq> p) xs)"
  by (induction xs arbitrary: k) simp_all

lemma get_seq_len_takeWhile:
  "get_seq_len p xs = length (takeWhile (\<lambda>x. x \<noteq> p) xs)"
  using get_seq_len_loop_takeWhile [of p 0 xs] by (simp add: get_seq_len_def)

lemma get_seq_len_le: "get_seq_len p xs \<le> length xs"
  by (simp add: get_seq_len_takeWhile length_takeWhile_le)

lemma get_seq_len_prefix_clean: "j < get_seq_len p xs \<Longrightarrow> xs ! j \<noteq> p"
  unfolding get_seq_len_takeWhile
  using nth_length_takeWhile takeWhile_nth nth_mem set_takeWhileD
  by (metis (mono_tags, lifting))

lemma get_seq_len_stops_at_pad: "get_seq_len p xs < length xs \<Longrightarrow> xs ! get_seq_len p xs = p"
  unfolding get_seq_len_takeWhile
  using nth_length_takeWhile [of "\<lambda>x. x \<noteq> p" xs] by simp

text \<open>
  C3. For every batch of integer rows and every padding sentinel,
  \<^verbatim>\<open>get_sequence_lengths\<close> returns one length per row; the length of a row is the
  index of the first occurrence of the sentinel (no earlier position holds the sentinel
  and that position does), or the row's full length when the sentinel does not occur; a
  row that begins with the sentinel has length 0. With sentinel 1 the rows
  \<open>[5,7,1,1,1]\<close>, \<open>[1,1,1,1,1]\<close> and \<open>[5,7,9,3,2]\<close> have lengths 2, 0 and 5.
\<close>

theorem get_sequence_lengths_first_pad:
  "length (get_sequence_lengths sequences p) = length sequences
   \<and> (\<forall>i < length sequences.
        let row = sequences ! i; k = get_sequence_lengths sequences p ! i in
          k = length (takeWhile (\<lambda>x. x \<noteq> p) row)
          \<and> k \<le> length row
          \<and> (\<forall>j < k. row ! j \<noteq> p)
          \<and> (k < length row \<longrightarrow> row ! k = p)
          \<and> (p \<notin> set row \<longrightarrow> k = length row)
          \<and> (row \<noteq> [] \<and> hd row = p \<longrightarrow> k = 0))
   \<and> get_sequence_lengths [[5,7,1,1,1], [1,1,1,1,1], [5,7,9,3,2]] 1 = [2, 0, 5]"
proof -
  have ex: "get_sequence_lengths [[5,7,1,1,1], [1,1,1,1,1], [5,7,9,3,2]] 1 = [2, 0, 5]"
    by (simp add: get_sequence_lengths_def get_seq_len_def)
  have "\<And>row. p \<notin> set row \<Longrightarrow> get_seq_len p row = length row"
  proof -
    fix row :: "int list"
    assume "p \<notin> set row"
    then have "takeWhile (\<lambda>x. x \<noteq> p) row = row"
      by (auto simp: takeWhile_eq_all_conv)
    then show "get_seq_len p row = length row"
      by (metis get_seq_len_takeWhile)
  qed
  moreover have "\<And>row. row \<noteq> [] \<and> hd row = p \<Longrightarrow> get_seq_len p row = 0"
    by (case_tac row) (simp_all add: get_seq_len_takeWhile)
  ultimately show ?thesis
    using ex get_seq_len_le get_seq_len_prefix_clean get_seq_len_stops_at_pad
    by (simp add: get_sequence_lengths_def Let_def get_seq_len_takeWhile [symmetric])
qed

theorem get_sequence_lengths_first_pad_witness:
  "get_sequence_lengths [[5,7,1,1,1], [1,9,1,1,1], [5,7,9,3,2]] 1 = [2, 0, 5]
   \<and> [5,7,1,1,1] ! (get_sequence_lengths [[5,7,1,1,1], [1,9,1,1,1], [5,7,9,3,2]] 1 ! 0) = (1::int)"
  using get_sequence_lengths_first_pad [of "[[5,7,1,1,1], [1,9,1,1,1], [5,7,9,3,2]]" 1]
  by (simp add: get_sequence_lengths_def get_seq_len_def)

subsection \<open>Results that may raise, indices and sorting\<close>

lemma bind_err_Inr [simp]: "bind_err (Inr x) f = f x"
  by (simp add: bind_err_def)

lemma bind_err_Inl [simp]: "bind_err (Inl e) f = Inl e"
  by (simp add: bind_err_def)

lemma bind_err_eq_Inr: "bind_err m f = Inr y \<longleftrightarrow> (\<exists>x. m = Inr x \<and> f x = Inr y)"
  by (cases m) simp_all

lemma torch_nonzero_bound: "i \<in> set (torch_nonzero ls) \<Longrightarrow> i < length ls"
  by (simp add: torch_nonzero_def)

lemma torch_nonzero_set: "set (torch_nonzero ls) = {i. i < length ls \<and> 0 < ls ! i}"
  by (auto simp: torch_nonzero_def)

lemma torch_nonzero_sorted: "sorted_wrt (<) (torch_nonzero ls)"
  unfolding torch_nonzero_def by (rule sorted_wrt_filter) (simp add: sorted_wrt_upt)

lemma torch_nonzero_distinct: "distinct (torch_nonzero ls)"
  by (simp add: torch_nonzero_def)

lemma index_select_ok: "list_all (\<lambda>i. i < length t) idx \<Longrightarrow> index_select t idx = Inr (map (\<lambda>i. t ! i) idx)"
  by (simp add: index_select_def)

lemma torch_sort_perm: "mset (snd (torch_sort t d)) = mset [0..<length t]"
proof -
  have "mset (map snd (sort_key (\<lambda>p. if d then - int (fst p) else int (fst p)) (zip t [0..<length t])))
        = mset (map snd (zip t [0..<length t]))"
    by (simp only: mset_map mset_sort)
  then show ?thesis by (simp add: torch_sort_def Let_def)
qed

lemma torch_sort_values_mset: "mset (fst (torch_sort t d)) = mset t"
proof -
  have "mset (map fst (sort_key (\<lambda>p. if d then - int (fst p) else int (fst p)) (zip t [0..<length t])))
        = mset (map fst (zip t [0..<length t]))"
    by (simp only: mset_map mset_sort)
  then show ?thesis by (simp add: torch_sort_def Let_def)
qed

lemma torch_sort_length: "length (snd (torch_sort t d)) = length t" "length (fst (torch_sort t d)) = length t"
  by (simp_all add: torch_sort_def Let_def)

lemma torch_sort_values: 
  "fst (torch_sort t d) = map (\<lambda>i. t ! i) (snd (torch_sort t d))"
proof -
  let ?ps = "sort_key (\<lambda>p. if d then - int (fst p) else int (fst p)) (zip t [0..<length t])"
  have "\<forall>p \<in> set ?ps. fst p = t ! snd p"
    by (auto simp: set_zip)
  then have "map fst ?ps = map (\<lambda>p. t ! snd p) ?ps" by simp
  then show ?thesis by (simp add: torch_sort_def Let_def comp_def)
qed

lemma torch_sort_desc_sorted: "sorted (rev (fst (torch_sort t True)))"
proof -
  let ?ps = "sort_key (\<lambda>p. - int (fst p)) (zip t [0..<length t])"
  have "sorted (map (\<lambda>p. - int (fst p)) ?ps)" by (rule sorted_sort_key)
  then have "sorted_wrt (\<lambda>a b. fst a \<ge> fst b) ?ps"
    by (simp add: sorted_wrt_map)
  then have "sorted_wrt (\<lambda>a b. a \<ge> b) (map fst ?ps)"
    by (simp add: sorted_wrt_map)
  then show ?thesis by (simp add: torch_sort_def Let_def sorted_wrt_rev)
qed

lemma torch_sort_inverse:
  assumes "mset p = mset [0..<n]" and "k < n"
  shows "p ! (snd (torch_sort p False) ! k) = k"
proof -
  have len: "length p = n"
    using mset_eq_length [OF assms(1)] by simp
  define ps where "ps = sort_key (\<lambda>q. int (fst q)) (zip p [0..<length p])"
  have len_ps: "length ps = n" by (simp add: ps_def len)
  have el: "\<forall>q \<in> set ps. fst q = p ! snd q"
    by (auto simp: ps_def set_zip)
  have "sorted (map (\<lambda>q. int (fst q)) ps)" unfolding ps_def by (rule sorted_sort_key)
  then have s: "sorted (map fst ps)"
    by (simp add: sorted_wrt_map sorted_map)
  have "mset (map fst ps) = mset (map fst (zip p [0..<length p]))"
    unfolding ps_def by (simp only: mset_map mset_sort)
  then have m: "mset (map fst ps) = mset [0..<n]"
    using assms(1) by simp
  have "sort [0..<n] = map fst ps"
    using m s by (rule properties_for_sort)
  then have "map fst ps = [0..<n]" by simp
  then have "map fst ps ! k = [0..<n] ! k" by simp
  then have "fst (ps ! k) = k" using assms(2) len_ps by simp
  moreover have "ps ! k \<in> set ps" using assms(2) len_ps by simp
  ultimately have "p ! snd (ps ! k) = k" using el by simp
  then show ?thesis using assms(2) len_ps
    by (simp add: torch_sort_def Let_def ps_def [symmetric])
qed

lemma length_gru_scan [simp]: "length (gru_scan c h xs) = length xs"
  by (induction xs arbitrary: h) simp_all

lemma length_gru_sequence [simp]: "length (gru_sequence g xs) = length xs"
  by (simp add: gru_sequence_def Let_def)

lemma foldr_max_Max: "foldr max xs (0::nat) = Max (insert 0 (set xs))"
proof (induction xs)
  case Nil
  then show ?case by simp
next
  case (Cons a xs)
  have "foldr max (a # xs) 0 = max a (foldr max xs 0)" by simp
  also have "\<dots> = max a (Max (insert 0 (set xs)))" by (simp only: Cons.IH)
  also have "\<dots> = Max (insert a (insert 0 (set xs)))"
    by (rule Max_insert [symmetric]) simp_all
  also have "insert a (insert 0 (set xs)) = insert 0 (set (a # xs))" by auto
  finally show ?case .
qed

lemma mset_set_nat: "mset p = mset [0..<n] \<Longrightarrow> set p = {0..<n}"
  by (metis mset_eq_setD set_upt)

lemma mset_length_nat: "mset p = mset [0..<n] \<Longrightarrow> length p = n"
  by (metis length_upt mset_eq_length minus_nat.diff_0)

lemma get_sequence_lengths_nth:
  "i < length sw \<Longrightarrow> get_sequence_lengths sw p ! i = get_seq_len p (sw ! i)"
  by (simp add: get_sequence_lengths_def)

lemma length_get_sequence_lengths [simp]: "length (get_sequence_lengths sw p) = length sw"
  by (simp add: get_sequence_lengths_def)

lemma nonzero_values_set:
  "insert 0 (set (map (\<lambda>i. ls ! i) (torch_nonzero ls))) = insert 0 (set ls)"
proof (intro equalityI subsetI)
  fix x assume "x \<in> insert 0 (set (map (\<lambda>i. ls ! i) (torch_nonzero ls)))"
  then consider "x = 0" | i where "i \<in> set (torch_nonzero ls)" "x = ls ! i" by auto
  then show "x \<in> insert 0 (set ls)"
  proof cases
    case 1 then show ?thesis by simp
  next
    case 2
    then have "i < length ls" by (simp add: torch_nonzero_bound)
    then show ?thesis using 2 by simp
  qed
next
  fix x assume "x \<in> insert 0 (set ls)"
  then consider "x = 0" | "x \<noteq> 0" "x \<in> set ls" by auto
  then show "x \<in> insert 0 (set (map (\<lambda>i. ls ! i) (torch_nonzero ls)))"
  proof cases
    case 1 then show ?thesis by simp
  next
    case 2
    then obtain i where i: "i < length ls" "ls ! i = x" by (auto simp: in_set_conv_nth)
    then have "i \<in> set (torch_nonzero ls)" using 2 by (simp add: torch_nonzero_set)
    then show ?thesis using i by force
  qed
qed

lemma encode_words_ok:
  fixes self :: han and sw :: "int list list"
  defines "lengths \<equiv> get_sequence_lengths sw (padding_idx self)"
  assumes tok: "in_vocab self sw" and ne: "torch_nonzero lengths \<noteq> []"
  shows "encode_words self sw =
           Inr (map (\<lambda>i. row_encoding self (slot_max_len lengths) (sw ! i)) (torch_nonzero lengths),
                torch_nonzero lengths)"
proof -
  define idx where "idx = torch_nonzero lengths"
  define n where "n = length idx"
  define nz where "nz = map (\<lambda>i. sw ! i) idx"
  define ln where "ln = map (\<lambda>i. lengths ! i) idx"
  define si where "si = snd (torch_sort ln True)"
  define sl where "sl = fst (torch_sort ln True)"
  define ws where "ws = map (\<lambda>j. nz ! j) si"
  define emb where "emb = (\<lambda>row. map (\<lambda>t. embed_weight self ! nat t) row)"
  define we where "we = map emb ws"
  define packed where "packed = map (\<lambda>(l, row). take l row) (zip sl we)"
  define enc where "enc = map (gru_sequence (word_encoder self)) packed"
  define feat where "feat = 2 * hidden_size (word_encoder self)"
  define padded where "padded = fst (pad_packed_sequence feat enc)"
  define ui where "ui = snd (torch_sort si False)"
  define uv where "uv = fst (torch_sort si False)"
  have len_lengths: "length lengths = length sw" by (simp add: lengths_def)
  have idx_lt: "\<forall>i \<in> set idx. i < length sw"
    using torch_nonzero_bound [of _ lengths] len_lengths unfolding idx_def by metis
  have n_pos: "0 < n" using ne by (simp add: n_def idx_def)
  have s1: "get_nonzero_sequences sw lengths = Inr (nz, idx)"
    using idx_lt by (simp add: get_nonzero_sequences_def Let_def index_select_def idx_def [symmetric]
        nz_def list_all_iff)
  have s2: "index_select lengths idx = Inr ln"
    using idx_lt len_lengths by (simp add: index_select_def ln_def list_all_iff)
  have len_ln: "length ln = n" by (simp add: ln_def n_def)
  have si_perm: "mset si = mset [0..<n]"
    using torch_sort_perm [of ln True] len_ln by (simp add: si_def)
  have si_set: "set si = {0..<n}" using si_perm by (rule mset_set_nat)
  have len_si: "length si = n" using si_perm by (rule mset_length_nat)
  have sl_eq: "sl = map (\<lambda>j. ln ! j) si"
    using torch_sort_values [of ln True] by (simp add: sl_def si_def)
  have len_nz: "length nz = n" by (simp add: nz_def n_def)
  have s3: "index_select nz si = Inr ws"
    using si_set len_nz by (simp add: index_select_def ws_def list_all_iff)
  have ts: "torch_sort ln True = (sl, si)" by (simp add: sl_def si_def)
  have sn: "sort_nonzero ln idx nz = Inr (sl, si, ws)"
    by (simp add: sort_nonzero_def tensor_dim_def ts s3)
  have ws_rows: "set ws \<subseteq> set sw"
    using idx_lt si_set len_nz by (auto simp: ws_def nz_def n_def)
  have s4: "embedding (embed_weight self) ws = Inr we"
    using tok ws_rows by (auto simp: embedding_def we_def emb_def in_vocab_def list_all_iff)
  have ln_pos: "\<forall>l \<in> set ln. 0 < l"
    using torch_nonzero_set [of lengths] by (auto simp: ln_def idx_def)
  have sl_pos: "\<forall>l \<in> set sl. 0 < l"
    using ln_pos si_set len_ln by (auto simp: sl_eq)
  have len_we: "length we = n" by (simp add: we_def ws_def len_si)
  have len_sl: "length sl = n" by (simp add: sl_eq len_si)
  have ws_nth: "\<And>j. j < n \<Longrightarrow> ws ! j = sw ! (idx ! (si ! j))"
  proof -
    fix j assume j: "j < n"
    then have "si ! j < n" using si_set len_si by (metis atLeastLessThan_iff nth_mem)
    then show "ws ! j = sw ! (idx ! (si ! j))"
      using j len_si by (simp add: ws_def nz_def n_def)
  qed
  have sl_nth: "\<And>j. j < n \<Longrightarrow> sl ! j = get_seq_len (padding_idx self) (ws ! j)"
  proof -
    fix j assume j: "j < n"
    then have sj: "si ! j < n" using si_set len_si by (metis atLeastLessThan_iff nth_mem)
    then have "idx ! (si ! j) < length sw" using idx_lt by (simp add: n_def)
    then show "sl ! j = get_seq_len (padding_idx self) (ws ! j)"
      using j sj len_si ws_nth [OF j]
      by (simp add: sl_eq ln_def n_def lengths_def get_sequence_lengths_nth)
  qed
  have fits: "list_all (\<lambda>(l, row). l \<le> length row) (zip sl we)"
    unfolding list_all_length
  proof (intro allI impI)
    fix j assume "j < length (zip sl we)"
    then have j: "j < n" by (simp add: len_sl len_we)
    then have "sl ! j \<le> length (we ! j)"
      using sl_nth [OF j] get_seq_len_le [of "padding_idx self" "ws ! j"] len_si
      by (simp add: we_def emb_def ws_def)
    then show "case zip sl we ! j of (l, row) \<Rightarrow> l \<le> length row"
      using j by (simp add: len_sl len_we)
  qed
  have s5: "pack_padded_sequence we sl = Inr packed"
    using n_pos len_we len_sl sl_pos fits torch_sort_desc_sorted [of ln]
    by (auto simp: pack_padded_sequence_def packed_def list_all_iff sl_def)
  have len_packed: "length packed = n" by (simp add: packed_def len_sl len_we)
  have len_enc: "map length enc = sl"
  proof (rule nth_equalityI)
    show "length (map length enc) = length sl" by (simp add: enc_def len_packed len_sl)
  next
    fix j assume "j < length (map length enc)"
    then have j: "j < n" by (simp add: enc_def len_packed)
    have "sl ! j \<le> length (we ! j)"
      using fits j by (simp add: list_all_length len_sl len_we)
    then show "map length enc ! j = sl ! j"
      using j by (simp add: enc_def packed_def len_sl len_we)
  qed
  have maxlen: "foldr max sl 0 = slot_max_len lengths"
  proof -
    have "set sl = set ln" using torch_sort_values_mset [of ln True] unfolding sl_def by (rule mset_eq_setD)
    moreover have "insert 0 (set ln) = insert 0 (set lengths)"
      unfolding ln_def idx_def by (rule nonzero_values_set)
    ultimately show ?thesis by (simp add: slot_max_len_def foldr_max_Max)
  qed
  have padded_eq: "padded = map (\<lambda>s. s @ replicate (slot_max_len lengths - length s) (replicate feat 0)) enc"
    using maxlen len_enc by (simp add: padded_def pad_packed_sequence_def Let_def)
  have pps: "pad_packed_sequence feat enc = (padded, sl)"
    using len_enc by (simp add: padded_def pad_packed_sequence_def Let_def)
  have len_padded: "length padded = n" by (simp add: padded_eq enc_def len_packed)
  have ui_perm: "mset ui = mset [0..<n]"
    using torch_sort_perm [of si False] len_si by (simp add: ui_def)
  have ui_set: "set ui = {0..<n}" using ui_perm by (rule mset_set_nat)
  have len_ui: "length ui = n" using ui_perm by (rule mset_length_nat)
  have s6: "index_select padded ui = Inr (map (\<lambda>j. padded ! j) ui)"
    using ui_set len_padded by (simp add: index_select_def list_all_iff)
  have ts2: "torch_sort si False = (uv, ui)" by (simp add: ui_def uv_def)
  have final: "map (\<lambda>j. padded ! j) ui = map (\<lambda>i. row_encoding self (slot_max_len lengths) (sw ! i)) idx"
  proof (rule nth_equalityI)
    show "length (map (\<lambda>j. padded ! j) ui) = length (map (\<lambda>i. row_encoding self (slot_max_len lengths) (sw ! i)) idx)"
      by (simp add: len_ui n_def)
  next
    fix k assume "k < length (map (\<lambda>j. padded ! j) ui)"
    then have k: "k < n" by (simp add: len_ui)
    define j where "j = ui ! k"
    have j: "j < n" using k ui_set len_ui unfolding j_def by (metis atLeastLessThan_iff nth_mem)
    have sik: "si ! j = k" unfolding j_def ui_def using si_perm k by (rule torch_sort_inverse)
    have wsj: "ws ! j = sw ! (idx ! k)" using ws_nth [OF j] sik by simp
    have "sl ! j \<le> length (we ! j)"
      using fits j by (simp add: list_all_length len_sl len_we)
    have "packed ! j = take (sl ! j) (we ! j)"
      using j by (simp add: packed_def len_sl len_we)
    also have "\<dots> = map (\<lambda>t. embed_weight self ! nat t) (take (get_seq_len (padding_idx self) (sw ! (idx ! k))) (sw ! (idx ! k)))"
      using j sl_nth [OF j] wsj len_si by (simp add: we_def emb_def take_map ws_def)
    finally have pj: "packed ! j = map (\<lambda>t. embed_weight self ! nat t) (take (get_seq_len (padding_idx self) (sw ! (idx ! k))) (sw ! (idx ! k)))" .
    have "padded ! j = row_encoding self (slot_max_len lengths) (sw ! (idx ! k))"
      using j pj by (simp add: padded_eq enc_def len_packed row_encoding_def Let_def feat_def)
    then show "map (\<lambda>j. padded ! j) ui ! k = map (\<lambda>i. row_encoding self (slot_max_len lengths) (sw ! i)) idx ! k"
      using k by (simp add: len_ui n_def j_def)
  qed
  show ?thesis
    unfolding encode_words_def Let_def lengths_def [symmetric]
    by (simp only: s1 s2 sn s4 s5 s6 ts2 pps final bind_err_Inr prod.case
        enc_def [symmetric] feat_def [symmetric] idx_def [symmetric])
qed

subsection \<open>Repacking and the attention pool\<close>

lemma assign_rows_ok:
  "distinct idx \<Longrightarrow> length vs = length idx \<Longrightarrow> \<forall>i \<in> set idx. i < length rp \<Longrightarrow>
   \<exists>r. assign_rows rp (zip vs idx) = Inr r \<and> length r = length rp
       \<and> (\<forall>k < length idx. r ! (idx ! k) = vs ! k)
       \<and> (\<forall>b. b \<notin> set idx \<longrightarrow> r ! b = rp ! b)"
proof (induction idx arbitrary: vs rp)
  case Nil
  then show ?case by simp
next
  case (Cons i idx)
  then obtain v vs' where vs: "vs = v # vs'" by (cases vs) auto
  have i: "i < length rp" "i \<notin> set idx" using Cons.prems by auto
  have "\<exists>r. assign_rows (rp[i := v]) (zip vs' idx) = Inr r \<and> length r = length (rp[i := v])
       \<and> (\<forall>k < length idx. r ! (idx ! k) = vs' ! k)
       \<and> (\<forall>b. b \<notin> set idx \<longrightarrow> r ! b = (rp[i := v]) ! b)"
    using Cons.prems vs by (intro Cons.IH) auto
  then obtain r where r: "assign_rows (rp[i := v]) (zip vs' idx) = Inr r" "length r = length rp"
      "\<forall>k < length idx. r ! (idx ! k) = vs' ! k" "\<forall>b. b \<notin> set idx \<longrightarrow> r ! b = (rp[i := v]) ! b"
    by auto
  have "r ! i = v" using r(4) i by simp
  moreover have "\<forall>b. b \<notin> set (i # idx) \<longrightarrow> r ! b = rp ! b" using r(4) by simp
  moreover have "\<forall>k < length (i # idx). r ! ((i # idx) ! k) = vs ! k"
  proof (intro allI impI)
    fix k assume "k < length (i # idx)"
    then show "r ! ((i # idx) ! k) = vs ! k"
      using \<open>r ! i = v\<close> r(3) vs by (cases k) auto
  qed
  ultimately show ?case using r(1,2) i vs by simp
qed

lemma repack_ok:
  assumes "0 < batch_size" "distinct indexes" "length indexes = length (t_rows seq_vectors)"
    "\<forall>i \<in> set indexes. i < batch_size"
  shows "\<exists>rs. repack_with_zero_seqs seq_vectors batch_size indexes
              = Inr \<lparr>t_cols = t_cols seq_vectors, t_rows = rs\<rparr>
           \<and> length rs = batch_size
           \<and> (\<forall>k < length indexes. rs ! (indexes ! k) = t_rows seq_vectors ! k)
           \<and> (\<forall>i < batch_size. i \<notin> set indexes \<longrightarrow> rs ! i = replicate (t_cols seq_vectors) 0)"
proof -
  let ?rp = "replicate batch_size (replicate (t_cols seq_vectors) (0::real))"
  have "\<exists>r. assign_rows ?rp (zip (t_rows seq_vectors) indexes) = Inr r \<and> length r = length ?rp
       \<and> (\<forall>k < length indexes. r ! (indexes ! k) = t_rows seq_vectors ! k)
       \<and> (\<forall>b. b \<notin> set indexes \<longrightarrow> r ! b = ?rp ! b)"
    using assms by (intro assign_rows_ok) auto
  then obtain r where r: "assign_rows ?rp (zip (t_rows seq_vectors) indexes) = Inr r"
      "length r = batch_size" "\<forall>k < length indexes. r ! (indexes ! k) = t_rows seq_vectors ! k"
      "\<forall>b. b \<notin> set indexes \<longrightarrow> r ! b = ?rp ! b"
    by auto
  have "r \<noteq> []" using r(2) assms(1) by auto
  then have "repack_with_zero_seqs seq_vectors batch_size indexes
              = Inr \<lparr>t_cols = t_cols seq_vectors, t_rows = r\<rparr>"
    using r(1) by (simp add: repack_with_zero_seqs_def Let_def)
  moreover have "\<forall>i < batch_size. i \<notin> set indexes \<longrightarrow> r ! i = replicate (t_cols seq_vectors) 0"
    using r(4) by simp
  ultimately show ?thesis using r(2,3) by blast
qed

lemma sum_list_divide: "sum_list (map (\<lambda>z. f z / (c::real)) zs) = sum_list (map f zs) / c"
  by (induction zs) (simp_all add: add_divide_distrib)

lemma sum_list_exp_pos: "zs \<noteq> [] \<Longrightarrow> 0 < sum_list (map exp (zs :: real list))"
proof (induction zs)
  case Nil
  then show ?case by simp
next
  case (Cons z zs)
  have "0 \<le> sum_list (map exp zs)" by (rule sum_list_nonneg) auto
  moreover have "0 < exp z" by simp
  ultimately show ?case by (simp add: add_pos_nonneg)
qed

lemma softmax_sum: "zs \<noteq> [] \<Longrightarrow> sum_list (softmax zs) = 1"
  using sum_list_exp_pos [of zs] by (simp add: softmax_def sum_list_divide)

lemma softmax_nonneg: "a \<in> set (softmax zs) \<Longrightarrow> 0 \<le> a"
proof -
  assume "a \<in> set (softmax zs)"
  then obtain z where "z \<in> set zs" "a = exp z / sum_list (map exp zs)"
    by (auto simp: softmax_def)
  moreover have "0 \<le> sum_list (map exp zs)" by (rule sum_list_nonneg) auto
  ultimately show ?thesis by simp
qed

lemma length_softmax [simp]: "length (softmax zs) = length zs"
  by (simp add: softmax_def)

lemma attention_alpha:
  "batch_first a \<Longrightarrow>
   snd (attention_forward a X) =
     \<lparr>t_cols = (case X of [] \<Rightarrow> 0 | r # _ \<Rightarrow> length r),
      t_rows = map (\<lambda>xs. softmax (map (score a) xs)) X\<rparr>"
  by (simp add: attention_forward_def Let_def score_def [abs_def] comp_def)

lemma attention_out_length:
  "length (t_rows (fst (attention_forward a X))) = length (if \<not> batch_first a then transpose X else X)"
  by (simp add: attention_forward_def Let_def)

subsection \<open>The body of the loop and the loop\<close>

lemma slot_max_len_ge: "i < length ls \<Longrightarrow> ls ! i \<le> slot_max_len ls"
proof -
  assume "i < length ls"
  then have "ls ! i \<in> insert 0 (set ls)" by simp
  then have "ls ! i \<le> Max (insert 0 (set ls))" by (intro Max_ge) simp_all
  then show ?thesis by (simp add: slot_max_len_def foldr_max_Max)
qed

lemma length_row_encoding:
  "get_seq_len (padding_idx self) row \<le> T \<Longrightarrow> length (row_encoding self T row) = T"
  using get_seq_len_le [of "padding_idx self" row]
  by (simp add: row_encoding_def Let_def)

lemma slot_max_len_le:
  assumes "\<forall>l \<in> set ls. l \<le> m"
  shows "slot_max_len ls \<le> m"
proof -
  have "Max (insert 0 (set ls)) \<le> m" using assms by (subst Max_le_iff) auto
  then show ?thesis by (simp add: slot_max_len_def foldr_max_Max)
qed

text \<open>The body of the loop on a slot with at least one non-empty row.\<close>

lemma encode_slot_ok:
  fixes self :: han and sw :: "int list list"
  defines "lengths \<equiv> get_sequence_lengths sw (padding_idx self)"
  defines "idx \<equiv> torch_nonzero lengths"
  defines "T \<equiv> slot_max_len lengths"
  assumes con: "constructed self" and tok: "in_vocab self sw" and ne: "idx \<noteq> []"
    and len: "length sw = batch_size"
  shows "\<exists>sv sa. encode_slot self batch_size sw = Inr (sv, sa, idx)
           \<and> length (t_rows sv) = batch_size
           \<and> t_cols sa = T \<and> length (t_rows sa) = batch_size
           \<and> (\<forall>b < batch_size. length (t_rows sa ! b) = T)
           \<and> (\<forall>k < length idx. t_rows sa ! (idx ! k)
                  = softmax (map (score (word_attention self)) (row_encoding self T (sw ! (idx ! k)))))
           \<and> (\<forall>b < batch_size. b \<notin> set idx \<longrightarrow> t_rows sa ! b = replicate T 0)
           \<and> (\<forall>b < batch_size. b \<notin> set idx \<longrightarrow> t_rows sv ! b = replicate (t_cols sv) 0)"
proof -
  define we where "we = map (\<lambda>i. row_encoding self T (sw ! i)) idx"
  define pv where "pv = fst (attention_forward (word_attention self) we)"
  define pa where "pa = snd (attention_forward (word_attention self) we)"
  have ew: "encode_words self sw = Inr (we, idx)"
    using encode_words_ok [OF tok] ne by (simp add: we_def idx_def T_def lengths_def)
  have af: "attention_forward (word_attention self) we = (pv, pa)" by (simp add: pv_def pa_def)
  have idx_lt: "\<forall>i \<in> set idx. i < batch_size"
    using torch_nonzero_bound [of _ lengths] len by (auto simp: idx_def lengths_def)
  have bs: "0 < batch_size"
  proof -
    obtain i where "i \<in> set idx" using ne by (cases idx) auto
    then show ?thesis using idx_lt by force
  qed
  have dist: "distinct idx" by (simp add: idx_def torch_nonzero_distinct)
  have bf: "batch_first (word_attention self)" using con by (simp add: constructed_def)
  have we_ne: "we \<noteq> []" using ne by (simp add: we_def)
  have row_len: "\<forall>r \<in> set we. length r = T"
  proof
    fix r assume "r \<in> set we"
    then obtain i where i: "i \<in> set idx" "r = row_encoding self T (sw ! i)" by (auto simp: we_def)
    then have il: "i < length lengths" using torch_nonzero_bound by (simp add: idx_def)
    then have "get_seq_len (padding_idx self) (sw ! i) \<le> T"
      using slot_max_len_ge [OF il] by (simp add: T_def lengths_def get_sequence_lengths_nth)
    then show "length r = T" using i by (simp add: length_row_encoding)
  qed
  have pa_eq: "pa = \<lparr>t_cols = T, t_rows = map (\<lambda>xs. softmax (map (score (word_attention self)) xs)) we\<rparr>"
  proof -
    have "(case we of [] \<Rightarrow> 0 | r # _ \<Rightarrow> length r) = T"
      using we_ne row_len by (cases we) auto
    then show ?thesis using attention_alpha [OF bf, of we] by (simp add: pa_def)
  qed
  have len_pv: "length (t_rows pv) = length idx"
    using attention_out_length [of "word_attention self" we] bf by (simp add: pv_def we_def)
  have len_pa: "length (t_rows pa) = length idx" by (simp add: pa_eq we_def)
  obtain rv where rv: "repack_with_zero_seqs pv batch_size idx = Inr \<lparr>t_cols = t_cols pv, t_rows = rv\<rparr>"
      "length rv = batch_size"
      "\<forall>i < batch_size. i \<notin> set idx \<longrightarrow> rv ! i = replicate (t_cols pv) 0"
    using repack_ok [OF bs dist _ idx_lt, of pv] len_pv by auto
  obtain ra where ra: "repack_with_zero_seqs pa batch_size idx = Inr \<lparr>t_cols = t_cols pa, t_rows = ra\<rparr>"
      "length ra = batch_size"
      "\<forall>k < length idx. ra ! (idx ! k) = t_rows pa ! k"
      "\<forall>i < batch_size. i \<notin> set idx \<longrightarrow> ra ! i = replicate (t_cols pa) 0"
    using repack_ok [OF bs dist _ idx_lt, of pa] len_pa by auto
  have es: "encode_slot self batch_size sw
              = Inr (\<lparr>t_cols = t_cols pv, t_rows = rv\<rparr>, \<lparr>t_cols = t_cols pa, t_rows = ra\<rparr>, idx)"
    by (simp add: encode_slot_def ew af rv(1) ra(1))
  have kept: "\<forall>k < length idx. ra ! (idx ! k)
                  = softmax (map (score (word_attention self)) (row_encoding self T (sw ! (idx ! k))))"
    using ra(3) by (simp add: pa_eq we_def)
  have widths: "\<forall>b < batch_size. length (ra ! b) = T"
  proof (intro allI impI)
    fix b assume b: "b < batch_size"
    show "length (ra ! b) = T"
    proof (cases "b \<in> set idx")
      case True
      then obtain k where k: "k < length idx" "idx ! k = b" by (auto simp: in_set_conv_nth)
      have "row_encoding self T (sw ! b) \<in> set we" using True by (auto simp: we_def)
      then have "length (row_encoding self T (sw ! b)) = T" using row_len by blast
      moreover have "ra ! b = softmax (map (score (word_attention self)) (row_encoding self T (sw ! b)))"
        using kept k by auto
      ultimately show ?thesis by simp
    next
      case False
      then show ?thesis using ra(4) b by (simp add: pa_eq)
    qed
  qed
  show ?thesis
    using es rv(2,3) ra(2,4) kept widths by (simp add: pa_eq)
qed

lemma encode_words_empty:
  assumes "torch_nonzero (get_sequence_lengths sw (padding_idx self)) = []"
  shows "encode_words self sw = Inl PackError"
  using assms
  by (simp add: encode_words_def Let_def get_nonzero_sequences_def index_select_def tensor_dim_def
      sort_nonzero_def torch_sort_def embedding_def pack_padded_sequence_def)

lemma encode_slot_empty:
  assumes "torch_nonzero (get_sequence_lengths sw (padding_idx self)) = []"
  shows "encode_slot self batch_size sw = Inl PackError"
  using encode_words_empty [OF assms] by (simp add: encode_slot_def)


lemma increment_lengths_ok:
  "distinct idx \<Longrightarrow> \<forall>i \<in> set idx. i < length sl \<Longrightarrow>
   increment_lengths sl idx = Inr (map (\<lambda>b. if b \<in> set idx then sl ! b + 1 else sl ! b) [0..<length sl])"
proof (induction idx arbitrary: sl)
  case Nil
  then show ?case by (simp add: map_nth)
next
  case (Cons i idx)
  have i: "i < length sl" "i \<notin> set idx" using Cons.prems by auto
  let ?sl = "sl[i := sl ! i + 1]"
  have "increment_lengths ?sl idx
          = Inr (map (\<lambda>b. if b \<in> set idx then ?sl ! b + 1 else ?sl ! b) [0..<length ?sl])"
    using Cons.prems by (intro Cons.IH) auto
  moreover have "map (\<lambda>b. if b \<in> set idx then ?sl ! b + 1 else ?sl ! b) [0..<length ?sl]
          = map (\<lambda>b. if b \<in> set (i # idx) then sl ! b + 1 else sl ! b) [0..<length sl]"
    using i by (auto simp: nth_list_update)
  ultimately show ?case using i by simp
qed

lemma slot_lengths_nth:
  "b < length (tokens X) \<Longrightarrow>
   slot_lengths self X i ! b = get_seq_len (padding_idx self) (tokens X ! b ! i)"
  by (simp add: slot_lengths_def slot_def get_sequence_lengths_def)

lemma length_slot_lengths [simp]: "length (slot_lengths self X i) = length (tokens X)"
  by (simp add: slot_lengths_def slot_def)

lemma slots_loop_ok:
  assumes con: "constructed self" and lt: "length (tokens X) = shape0 X"
  shows "\<forall>i \<in> set slots. in_vocab self (slot X i) \<and> torch_nonzero (slot_lengths self X i) \<noteq> [] \<Longrightarrow>
     length sl = shape0 X \<Longrightarrow>
     \<exists>E A sl'. slots_loop self X slots (E0, A0, sl) = Inr (E0 @ E, A0 @ A, sl')
       \<and> length E = length slots \<and> length A = length slots
       \<and> (\<forall>j < length slots.
             length (t_rows (E ! j)) = shape0 X
             \<and> t_cols (A ! j) = slot_max_len (slot_lengths self X (slots ! j))
             \<and> length (t_rows (A ! j)) = shape0 X
             \<and> (\<forall>b < shape0 X. length (t_rows (A ! j) ! b) = t_cols (A ! j)))
       \<and> length sl' = shape0 X
       \<and> (\<forall>b < shape0 X.
             sl' ! b = sl ! b + of_nat (length (filter (\<lambda>i. 0 < slot_lengths self X i ! b) slots)))"
proof (induction slots arbitrary: E0 A0 sl)
  case Nil
  then show ?case by simp
next
  case (Cons i slots)
  define idx where "idx = torch_nonzero (slot_lengths self X i)"
  define T where "T = slot_max_len (slot_lengths self X i)"
  have good: "in_vocab self (slot X i)" "idx \<noteq> []" using Cons.prems(1) by (simp_all add: idx_def)
  have ls: "length (slot X i) = shape0 X" using lt by (simp add: slot_def)
  obtain sv sa where s: "encode_slot self (shape0 X) (slot X i) = Inr (sv, sa, idx)"
      "length (t_rows sv) = shape0 X" "t_cols sa = T" "length (t_rows sa) = shape0 X"
      "\<forall>b < shape0 X. length (t_rows sa ! b) = T"
    using encode_slot_ok [OF con good(1) _ ls] good(2)
    unfolding idx_def T_def slot_lengths_def by blast
  have idx_lt: "\<forall>j \<in> set idx. j < length sl"
    using torch_nonzero_bound [of _ "slot_lengths self X i"] lt Cons.prems(2) by (auto simp: idx_def)
  define sl1 where "sl1 = map (\<lambda>b. if b \<in> set idx then sl ! b + 1 else sl ! b) [0..<length sl]"
  have inc: "increment_lengths sl idx = Inr sl1"
    using increment_lengths_ok [OF _ idx_lt] by (simp add: sl1_def idx_def torch_nonzero_distinct)
  have len1: "length sl1 = shape0 X" using Cons.prems(2) by (simp add: sl1_def)
  have rest: "\<forall>i \<in> set slots. in_vocab self (slot X i) \<and> torch_nonzero (slot_lengths self X i) \<noteq> []"
    using Cons.prems(1) by simp
  obtain E A sl' where r: "slots_loop self X slots (E0 @ [sv], A0 @ [sa], sl1) = Inr ((E0 @ [sv]) @ E, (A0 @ [sa]) @ A, sl')"
      "length E = length slots" "length A = length slots"
      "\<forall>j < length slots.
             length (t_rows (E ! j)) = shape0 X
             \<and> t_cols (A ! j) = slot_max_len (slot_lengths self X (slots ! j))
             \<and> length (t_rows (A ! j)) = shape0 X
             \<and> (\<forall>b < shape0 X. length (t_rows (A ! j) ! b) = t_cols (A ! j))"
      "length sl' = shape0 X"
      "\<forall>b < shape0 X.
             sl' ! b = sl1 ! b + of_nat (length (filter (\<lambda>i. 0 < slot_lengths self X i ! b) slots))"
    using Cons.IH [OF rest len1, of "E0 @ [sv]" "A0 @ [sa]"] by blast
  have run: "slots_loop self X (i # slots) (E0, A0, sl) = Inr (E0 @ (sv # E), A0 @ (sa # A), sl')"
    using s(1) inc r(1) by simp
  have shapes: "\<forall>j < length (i # slots).
             length (t_rows ((sv # E) ! j)) = shape0 X
             \<and> t_cols ((sa # A) ! j) = slot_max_len (slot_lengths self X ((i # slots) ! j))
             \<and> length (t_rows ((sa # A) ! j)) = shape0 X
             \<and> (\<forall>b < shape0 X. length (t_rows ((sa # A) ! j) ! b) = t_cols ((sa # A) ! j))"
  proof (intro allI impI)
    fix j assume "j < length (i # slots)"
    then show "length (t_rows ((sv # E) ! j)) = shape0 X
             \<and> t_cols ((sa # A) ! j) = slot_max_len (slot_lengths self X ((i # slots) ! j))
             \<and> length (t_rows ((sa # A) ! j)) = shape0 X
             \<and> (\<forall>b < shape0 X. length (t_rows ((sa # A) ! j) ! b) = t_cols ((sa # A) ! j))"
      using s(2-5) r(4) by (cases j) (simp_all add: T_def)
  qed
  have counts: "\<forall>b < shape0 X.
             sl' ! b = sl ! b + of_nat (length (filter (\<lambda>i. 0 < slot_lengths self X i ! b) (i # slots)))"
  proof (intro allI impI)
    fix b assume b: "b < shape0 X"
    have "b \<in> set idx \<longleftrightarrow> 0 < slot_lengths self X i ! b"
      using b lt by (simp add: idx_def torch_nonzero_set)
    moreover have "sl1 ! b = (if b \<in> set idx then sl ! b + 1 else sl ! b)"
      using b Cons.prems(2) by (simp add: sl1_def)
    ultimately show "sl' ! b = sl ! b + of_nat (length (filter (\<lambda>i. 0 < slot_lengths self X i ! b) (i # slots)))"
      using r(6) b by simp
  qed
  show ?case
    apply (rule exI [of _ "sv # E"], rule exI [of _ "sa # A"], rule exI [of _ sl'])
    using run r(2,3,5) shapes counts by simp
qed

lemma slots_loop_error:
  "i \<in> set slots \<Longrightarrow> torch_nonzero (slot_lengths self X i) = [] \<Longrightarrow>
   \<exists>e. slots_loop self X slots acc = Inl e"
proof (induction slots arbitrary: acc)
  case Nil
  then show ?case by simp
next
  case (Cons j slots)
  obtain E A sl where acc: "acc = (E, A, sl)" by (cases acc) auto
  show ?case
  proof (cases "encode_slot self (shape0 X) (slot X j)")
    case (Inl e)
    then show ?thesis by (simp add: acc)
  next
    case (Inr r)
    then have ji: "j \<noteq> i"
      using encode_slot_empty [of "slot X i" self "shape0 X"] Cons.prems(2)
      by (auto simp: slot_lengths_def)
    obtain sv sa idx where r: "r = (sv, sa, idx)" by (cases r) auto
    show ?thesis
    proof (cases "increment_lengths sl idx")
      case (Inl e)
      then show ?thesis using Inr by (simp add: acc r)
    next
      case inc: (Inr sl1)
      have "\<exists>e. slots_loop self X slots (E @ [sv], A @ [sa], sl1) = Inl e"
        using Cons.prems ji by (intro Cons.IH) auto
      then show ?thesis using Inr inc by (simp add: acc r)
    qed
  qed
qed

subsection \<open>The whole word-level pass\<close>

lemma slot_in_vocab:
  assumes "tokens_in_vocab self X" "wf_batch X" "i < shape1 X"
  shows "in_vocab self (slot X i)"
proof -
  have "\<forall>doc \<in> set (tokens X). doc ! i \<in> set doc"
    using assms(2,3) by (auto simp: wf_batch_def list_all_iff)
  then show ?thesis
    using assms(1) by (auto simp: tokens_in_vocab_def in_vocab_def slot_def list_all_iff)
qed

lemma slot_used:
  assumes "every_slot_used self X" "i < shape1 X"
  shows "torch_nonzero (slot_lengths self X i) \<noteq> []"
proof -
  have "list_ex (\<lambda>doc. 0 < get_seq_len (padding_idx self) (doc ! i)) (tokens X)"
    using assms by (simp add: every_slot_used_def list_all_iff)
  then obtain doc where d: "doc \<in> set (tokens X)" "0 < get_seq_len (padding_idx self) (doc ! i)"
    by (auto simp: list_ex_iff)
  then obtain b where b: "b < length (tokens X)" "tokens X ! b = doc"
    by (auto simp: in_set_conv_nth)
  then have "0 < slot_lengths self X i ! b" using d by (simp add: slot_lengths_nth)
  then have "b \<in> set (torch_nonzero (slot_lengths self X i))"
    using b by (simp add: torch_nonzero_set)
  then show ?thesis by auto
qed

lemma slot_all_empty:
  assumes "list_all (\<lambda>doc. get_seq_len (padding_idx self) (doc ! i) = 0) (tokens X)"
  shows "torch_nonzero (slot_lengths self X i) = []"
proof -
  have "\<forall>b < length (tokens X). slot_lengths self X i ! b = 0"
    using assms by (simp add: slot_lengths_nth list_all_length)
  then have "set (torch_nonzero (slot_lengths self X i)) = {}"
    by (auto simp: torch_nonzero_set)
  then show ?thesis by simp
qed

lemma encode_sentences_words_ok:
  assumes con: "constructed self" and wf: "wf_batch X" and tok: "tokens_in_vocab self X"
    and used: "every_slot_used self X" and ns: "0 < shape1 X"
  shows "\<exists>enc A lens. encode_sentences_words self X = Inr (enc, A, lens)
           \<and> length enc = shape0 X
           \<and> length A = shape1 X
           \<and> (\<forall>s < shape1 X.
                 t_cols (A ! s) = slot_max_len (slot_lengths self X s)
                 \<and> length (t_rows (A ! s)) = shape0 X
                 \<and> (\<forall>b < shape0 X. length (t_rows (A ! s) ! b) = t_cols (A ! s)))
           \<and> length lens = shape0 X
           \<and> (\<forall>b < shape0 X. lens ! b = of_nat (sentence_count self X b))"
proof -
  have lt: "length (tokens X) = shape0 X" using wf by (simp add: wf_batch_def)
  have good: "\<forall>i \<in> set [0..<shape1 X]. in_vocab self (slot X i) \<and> torch_nonzero (slot_lengths self X i) \<noteq> []"
    using slot_in_vocab [OF tok wf] slot_used [OF used] by simp
  have l0: "length (replicate (shape0 X) (0 :: 32 word)) = shape0 X" by simp
  obtain E A sl' where r: "slots_loop self X [0..<shape1 X] ([], [], replicate (shape0 X) 0) = Inr ([] @ E, [] @ A, sl')"
      "length E = length [0..<shape1 X]" "length A = length [0..<shape1 X]"
      "\<forall>j < length [0..<shape1 X].
             length (t_rows (E ! j)) = shape0 X
             \<and> t_cols (A ! j) = slot_max_len (slot_lengths self X ([0..<shape1 X] ! j))
             \<and> length (t_rows (A ! j)) = shape0 X
             \<and> (\<forall>b < shape0 X. length (t_rows (A ! j) ! b) = t_cols (A ! j))"
      "length sl' = shape0 X"
      "\<forall>b < shape0 X.
             sl' ! b = replicate (shape0 X) 0 ! b
                + of_nat (length (filter (\<lambda>i. 0 < slot_lengths self X i ! b) [0..<shape1 X]))"
    using slots_loop_ok [OF con lt good l0, of "[]" "[]"] by blast
  obtain e E' where E: "E = e # E'" using r(2) ns by (cases E) auto
  have e: "length (t_rows e) = shape0 X" using r(4) ns E by auto
  define enc where "enc = map (\<lambda>b. map (\<lambda>u. t_rows u ! b) E) [0..<shape0 X]"
  have cat: "torch_cat_dim1 E = Inr enc"
    using e by (simp add: torch_cat_dim1_def E enc_def)
  have run: "encode_sentences_words self X = Inr (enc, A, sl')"
    using r(1) cat by (simp add: encode_sentences_words_def Let_def)
  have counts: "\<forall>b < shape0 X. sl' ! b = of_nat (sentence_count self X b)"
  proof (intro allI impI)
    fix b assume b: "b < shape0 X"
    have "filter (\<lambda>i. 0 < slot_lengths self X i ! b) [0..<shape1 X]
            = filter (\<lambda>i. 0 < get_seq_len (padding_idx self) (tokens X ! b ! i)) [0..<shape1 X]"
      using b lt by (simp add: slot_lengths_nth)
    then show "sl' ! b = of_nat (sentence_count self X b)"
      using r(6) b by (simp add: sentence_count_def)
  qed
  have shapes: "\<forall>s < shape1 X.
                 t_cols (A ! s) = slot_max_len (slot_lengths self X s)
                 \<and> length (t_rows (A ! s)) = shape0 X
                 \<and> (\<forall>b < shape0 X. length (t_rows (A ! s) ! b) = t_cols (A ! s))"
    using r(4) by simp
  show ?thesis
    using run r(3,5) counts shapes by (simp add: enc_def)
qed

lemma forward_of_encode:
  "encode_sentences_words self X = Inr (enc, A, lens) \<Longrightarrow>
   \<exists>out dalpha. forward self X = Inr (out, A, dalpha)
      \<and> length out = length (t_rows (fst (attention_forward (sentence_attention self)
                         (map (gru_sequence (sentence_encoder self)) enc))))"
  by (simp add: forward_def Let_def split: prod.splits)

lemma forward_error:
  "encode_sentences_words self X = Inl e \<Longrightarrow> forward self X = Inl e"
  by (simp add: forward_def)

lemma encode_sentences_words_error:
  assumes "i < shape1 X" "torch_nonzero (slot_lengths self X i) = []"
  shows "\<exists>e. encode_sentences_words self X = Inl e"
proof -
  have "i \<in> set [0..<shape1 X]" using assms(1) by simp
  then obtain e where "slots_loop self X [0..<shape1 X] ([], [], replicate (shape0 X) 0) = Inl e"
    using slots_loop_error [OF _ assms(2)] by blast
  then show ?thesis by (simp add: encode_sentences_words_def Let_def)
qed

subsection \<open>The observed sentence counts\<close>

lemma sint_count: "n < 2 ^ 31 \<Longrightarrow> sint (of_nat n :: 32 word) = int n"
proof -
  assume "n < 2 ^ 31"
  then have "int n < 2 ^ 31" by (metis of_nat_less_iff of_nat_numeral of_nat_power)
  then have "signed_take_bit 31 (int n) = int n"
    by (intro signed_take_bit_int_eq_self) simp_all
  then show ?thesis by (simp add: signed_of_nat)
qed

lemma sentence_count_le: "sentence_count self X b \<le> shape1 X"
  using length_filter_le [of _ "[0..<shape1 X]"] by (simp add: sentence_count_def)

lemma upt_0_2: "[0..<2] = [0, Suc 0]"
  by (simp add: numeral_2_eq_2)

lemma example_net_constructed: "constructed example_net"
  by (simp add: constructed_def example_net_def example_attention_def)

lemma two_documents_wf: "wf_batch two_documents"
  by (simp add: wf_batch_def two_documents_def)

lemma two_documents_in_vocab: "tokens_in_vocab example_net two_documents"
  by (simp add: tokens_in_vocab_def in_vocab_def two_documents_def example_net_def)

lemma two_documents_used: "every_slot_used example_net two_documents"
  by (simp add: every_slot_used_def two_documents_def example_net_def get_seq_len_def upt_0_2)

lemma two_documents_counts:
  "sentence_count example_net two_documents 0 = 2" "sentence_count example_net two_documents 1 = 1"
  by (simp_all add: sentence_count_def two_documents_def example_net_def get_seq_len_def upt_0_2)

text \<open>
  C6. For every token batch whose tokens are in the vocabulary, whose every slot has a
  non-empty sentence, and that has at least one slot and fewer than \<open>2^31\<close> slots
  (the range of the 32-bit counters), \<^verbatim>\<open>encode_sentences_words\<close> returns, with one
  counter per document, and the counter of a document is exactly the number of slots
  at which its sentence has measured length greater than 0.
\<close>

theorem sentence_lengths_count:
  assumes "constructed self" "wf_batch X" "tokens_in_vocab self X" "every_slot_used self X"
    "0 < shape1 X" "shape1 X < 2 ^ 31"
  shows "\<exists>enc alphas sentence_lengths.
           encode_sentences_words self X = Inr (enc, alphas, sentence_lengths)
           \<and> length sentence_lengths = shape0 X
           \<and> (\<forall>b < shape0 X. sint (sentence_lengths ! b) = int (sentence_count self X b))"
proof -
  obtain enc A lens where r: "encode_sentences_words self X = Inr (enc, A, lens)"
      "length lens = shape0 X" "\<forall>b < shape0 X. lens ! b = of_nat (sentence_count self X b)"
    using encode_sentences_words_ok [OF assms(1-5)] by blast
  have "\<forall>b < shape0 X. sint (lens ! b) = int (sentence_count self X b)"
  proof (intro allI impI)
    fix b assume "b < shape0 X"
    moreover have "sentence_count self X b < 2 ^ 31"
      using sentence_count_le [of self X b] assms(6) by simp
    ultimately show "sint (lens ! b) = int (sentence_count self X b)"
      using r(3) by (simp add: sint_count)
  qed
  then show ?thesis using r(1,2) by blast
qed

text \<open>Two documents of two slots, the second slot of the second document fully
  padded: the counts are 2 and 1.\<close>

theorem sentence_lengths_count_witness:
  "\<exists>enc alphas sentence_lengths.
     encode_sentences_words example_net two_documents = Inr (enc, alphas, sentence_lengths)
     \<and> map sint sentence_lengths = [2, 1]"
proof -
  have s: "shape0 two_documents = 2" "0 < shape1 two_documents" "shape1 two_documents < 2 ^ 31"
    by (simp_all add: two_documents_def)
  obtain enc alphas sl where r: "encode_sentences_words example_net two_documents = Inr (enc, alphas, sl)"
      "length sl = shape0 two_documents"
      "\<forall>b < shape0 two_documents. sint (sl ! b) = int (sentence_count example_net two_documents b)"
    using sentence_lengths_count [OF example_net_constructed two_documents_wf two_documents_in_vocab
        two_documents_used s(2,3)] by blast
  have "sint (sl ! 0) = 2" "sint (sl ! 1) = 1"
    using r(3) s(1) two_documents_counts by simp_all
  moreover have "length sl = 2" using r(2) s(1) by simp
  ultimately have "map sint sl = [2, 1]"
    by (cases sl; cases "tl sl") auto
  then show ?thesis using r(1) by (intro exI [of _ enc] exI [of _ alphas] exI [of _ sl]) simp
qed

subsection \<open>The word-level attention weights\<close>

lemma slot_max_len_words:
  assumes "wf_batch X" "s < shape1 X"
  shows "slot_max_len (slot_lengths self X s) \<le> shape2 X"
proof (rule slot_max_len_le, rule ballI)
  fix l assume "l \<in> set (slot_lengths self X s)"
  then obtain b where b: "b < length (tokens X)" "l = slot_lengths self X s ! b"
    by (auto simp: in_set_conv_nth)
  then have "tokens X ! b \<in> set (tokens X)" by simp
  then have "length (tokens X ! b) = shape1 X"
      "\<forall>sent \<in> set (tokens X ! b). length sent = shape2 X"
    using assms(1) by (auto simp: wf_batch_def list_all_iff)
  then have "length (tokens X ! b ! s) = shape2 X" using assms(2) by simp
  then show "l \<le> shape2 X"
    using b get_seq_len_le [of "padding_idx self" "tokens X ! b ! s"]
    by (simp add: slot_lengths_nth)
qed

lemma forward_ok:
  assumes "constructed self" "wf_batch X" "tokens_in_vocab self X" "every_slot_used self X"
    "0 < shape1 X"
  shows "\<exists>out alphas document_alpha.
           forward self X = Inr (out, alphas, document_alpha)
           \<and> length alphas = shape1 X
           \<and> (\<forall>s < shape1 X.
                 length (t_rows (alphas ! s)) = shape0 X
                 \<and> t_cols (alphas ! s) = slot_max_len (slot_lengths self X s)
                 \<and> (\<forall>b < shape0 X.
                       length (t_rows (alphas ! s) ! b) = slot_max_len (slot_lengths self X s))
                 \<and> slot_max_len (slot_lengths self X s) \<le> shape2 X)"
proof -
  obtain enc A lens where r: "encode_sentences_words self X = Inr (enc, A, lens)"
      "length A = shape1 X"
      "\<forall>s < shape1 X.
                 t_cols (A ! s) = slot_max_len (slot_lengths self X s)
                 \<and> length (t_rows (A ! s)) = shape0 X
                 \<and> (\<forall>b < shape0 X. length (t_rows (A ! s) ! b) = t_cols (A ! s))"
    using encode_sentences_words_ok [OF assms] by blast
  obtain out dalpha where f: "forward self X = Inr (out, A, dalpha)"
    using forward_of_encode [OF r(1)] by blast
  have "\<forall>s < shape1 X.
                 length (t_rows (A ! s)) = shape0 X
                 \<and> t_cols (A ! s) = slot_max_len (slot_lengths self X s)
                 \<and> (\<forall>b < shape0 X.
                       length (t_rows (A ! s) ! b) = slot_max_len (slot_lengths self X s))
                 \<and> slot_max_len (slot_lengths self X s) \<le> shape2 X"
    using r(3) slot_max_len_words [OF assms(2)] by simp
  then show ?thesis using f r(2) by blast
qed

lemma two_documents_max_len:
  "slot_max_len (slot_lengths example_net two_documents 0) = 2"
  "slot_max_len (slot_lengths example_net two_documents 1) = 1"
  by (simp_all add: slot_max_len_def slot_lengths_def slot_def get_sequence_lengths_def
      get_seq_len_def two_documents_def example_net_def)

text \<open>
  C7 (as amended). Whenever the forward pass returns, it returns one word-level
  attention weight array per sentence slot, and the array of a slot has \<open>batch_size\<close>
  rows whose width is the longest measured sentence length of that slot, which is at
  most \<open>n_words\<close> and smaller whenever every sentence of the slot is shorter than
  \<open>n_words\<close> (the padded output of the word encoder ends at the longest sequence of
  the slot).
\<close>

theorem word_alphas_shape:
  assumes "constructed self" "wf_batch X" "tokens_in_vocab self X" "every_slot_used self X"
    "0 < shape1 X"
  shows "\<exists>out alphas document_alpha.
           forward self X = Inr (out, alphas, document_alpha)
           \<and> length alphas = shape1 X
           \<and> (\<forall>s < shape1 X.
                 length (t_rows (alphas ! s)) = shape0 X
                 \<and> t_cols (alphas ! s) = slot_max_len (slot_lengths self X s)
                 \<and> (\<forall>b < shape0 X.
                       length (t_rows (alphas ! s) ! b) = slot_max_len (slot_lengths self X s))
                 \<and> slot_max_len (slot_lengths self X s) \<le> shape2 X)"
  using assms by (rule forward_ok)

theorem word_alphas_shape_witness:
  "\<exists>out alphas document_alpha.
     forward example_net two_documents = Inr (out, alphas, document_alpha)
     \<and> map (\<lambda>a. length (t_rows a)) alphas = [2, 2]
     \<and> map t_cols alphas = [2, 1]"
proof -
  have s: "shape0 two_documents = 2" "shape1 two_documents = 2" "0 < shape1 two_documents"
    by (simp_all add: two_documents_def)
  obtain out alphas dalpha where r: "forward example_net two_documents = Inr (out, alphas, dalpha)"
      "length alphas = shape1 two_documents"
      "\<forall>s < shape1 two_documents.
                 length (t_rows (alphas ! s)) = shape0 two_documents
                 \<and> t_cols (alphas ! s) = slot_max_len (slot_lengths example_net two_documents s)
                 \<and> (\<forall>b < shape0 two_documents.
                       length (t_rows (alphas ! s) ! b) = slot_max_len (slot_lengths example_net two_documents s))
                 \<and> slot_max_len (slot_lengths example_net two_documents s) \<le> shape2 two_documents"
    using word_alphas_shape [OF example_net_constructed two_documents_wf two_documents_in_vocab
        two_documents_used s(3)] by blast
  have "0 < shape1 two_documents" "1 < shape1 two_documents" by (simp_all add: s)
  then have "t_cols (alphas ! 0) = 2" "t_cols (alphas ! 1) = 1"
      "length (t_rows (alphas ! 0)) = 2" "length (t_rows (alphas ! 1)) = 2"
    using r(3) two_documents_max_len s(1) by auto
  moreover have "length alphas = 2" using r(2) s(2) by simp
  ultimately have "map (\<lambda>a. length (t_rows a)) alphas = [2, 2] \<and> map t_cols alphas = [2, 1]"
    by (cases alphas; cases "tl alphas") auto
  then show ?thesis using r(1)
    by (intro exI [of _ out] exI [of _ alphas] exI [of _ dalpha]) simp
qed

text \<open>The claim as stated fails on the two documents: the batch has \<open>n_words = 2\<close>,
  and the attention weight array of the second slot has width 1.\<close>

theorem word_alphas_shape_counterexample:
  "shape2 two_documents = 2
   \<and> (case forward example_net two_documents of
         Inl e \<Rightarrow> []
       | Inr (out, alphas, document_alpha) \<Rightarrow> map t_cols alphas) = [2, 1]"
proof -
  have s: "shape0 two_documents = 2" "shape1 two_documents = 2" "0 < shape1 two_documents"
    by (simp_all add: two_documents_def)
  obtain out alphas dalpha where r: "forward example_net two_documents = Inr (out, alphas, dalpha)"
      "length alphas = shape1 two_documents"
      "\<forall>s < shape1 two_documents.
                 length (t_rows (alphas ! s)) = shape0 two_documents
                 \<and> t_cols (alphas ! s) = slot_max_len (slot_lengths example_net two_documents s)
                 \<and> (\<forall>b < shape0 two_documents.
                       length (t_rows (alphas ! s) ! b) = slot_max_len (slot_lengths example_net two_documents s))
                 \<and> slot_max_len (slot_lengths example_net two_documents s) \<le> shape2 two_documents"
    using forward_ok [OF example_net_constructed two_documents_wf two_documents_in_vocab
        two_documents_used s(3)] by blast
  have "0 < shape1 two_documents" "1 < shape1 two_documents" by (simp_all add: s)
  then have "t_cols (alphas ! 0) = 2" "t_cols (alphas ! 1) = 1"
    using r(3) two_documents_max_len by auto
  moreover have "length alphas = 2" using r(2) s(2) by simp
  ultimately have "map t_cols alphas = [2, 1]"
    by (cases alphas; cases "tl alphas") auto
  then show ?thesis using r(1) by (simp add: two_documents_def)
qed

subsection \<open>A slot that is empty in every document\<close>

lemma all_empty_slot_error:
  assumes "i < shape1 X"
    "list_all (\<lambda>doc. get_seq_len (padding_idx self) (doc ! i) = 0) (tokens X)"
  shows "encode_slot self (shape0 X) (slot X i) = Inl PackError \<and> (\<exists>e. forward self X = Inl e)"
proof -
  have z: "torch_nonzero (slot_lengths self X i) = []"
    using assms(2) by (rule slot_all_empty)
  then have "encode_slot self (shape0 X) (slot X i) = Inl PackError"
    using encode_slot_empty [of "slot X i" self "shape0 X"] by (simp add: slot_lengths_def)
  moreover obtain e where "encode_sentences_words self X = Inl e"
    using encode_sentences_words_error [OF assms(1) z] by blast
  then have "forward self X = Inl e" by (rule forward_error)
  ultimately show ?thesis by blast
qed

lemma empty_second_slot_facts:
  "wf_batch empty_second_slot" "1 < shape1 empty_second_slot"
  "list_all (\<lambda>doc. get_seq_len (padding_idx example_net) (doc ! 1) = 0) (tokens empty_second_slot)"
  by (simp_all add: wf_batch_def empty_second_slot_def example_net_def get_seq_len_def)

text \<open>
  C2 (as amended). For every sentence slot at which every document of the batch has
  measured length 0, the forward pass has no skip: the body of the loop runs on the
  slot with an empty set of kept rows, \<^verbatim>\<open>pack_padded_sequence\<close> rejects the empty
  batch, and the forward pass ends with an error instead of a result (no zero slice is
  substituted).
\<close>

theorem all_empty_slot_raises:
  assumes "wf_batch X" "i < shape1 X"
    "list_all (\<lambda>doc. get_seq_len (padding_idx self) (doc ! i) = 0) (tokens X)"
  shows "encode_slot self (shape0 X) (slot X i) = Inl PackError \<and> (\<exists>e. forward self X = Inl e)"
  using assms(2,3) by (rule all_empty_slot_error)

theorem all_empty_slot_raises_witness:
  "encode_slot example_net 2 (slot empty_second_slot 1) = Inl PackError
   \<and> (\<exists>e. forward example_net empty_second_slot = Inl e)"
  using all_empty_slot_raises [OF empty_second_slot_facts]
  by (simp add: empty_second_slot_def)

text \<open>The claim as stated fails on two documents whose second slot is fully padded in
  both: the forward pass returns no result.\<close>

theorem all_empty_slot_counterexample:
  "forward example_net empty_second_slot = Inl PackError"
proof -
  let ?X = empty_second_slot
  have sl0: "slot ?X 0 = [[5, 7], [5, 1]]" and sl1: "slot ?X 1 = [[1, 1], [1, 1]]"
    and sh: "shape0 ?X = 2" "shape1 ?X = 2"
    by (simp_all add: slot_def empty_second_slot_def)
  have l0: "get_sequence_lengths [[5, 7], [5, 1]] (padding_idx example_net) = [2, 1]"
    and l1: "get_sequence_lengths [[1, 1], [1, 1]] (padding_idx example_net) = [0, 0]"
    by (simp_all add: get_sequence_lengths_def get_seq_len_def example_net_def)
  have nz0: "torch_nonzero [2, Suc 0] = [0, Suc 0]" and nz1: "torch_nonzero [0, 0] = []"
    by (simp_all add: torch_nonzero_def upt_0_2)
  have "in_vocab example_net [[5, 7], [5, 1]]"
    by (simp add: in_vocab_def example_net_def)
  then obtain sv sa where s0: "encode_slot example_net 2 [[5, 7], [5, 1]] = Inr (sv, sa, [0, Suc 0])"
    using encode_slot_ok [OF example_net_constructed, of "[[5, 7], [5, 1]]" 2]
    by (auto simp: l0 nz0)
  have s1: "encode_slot example_net 2 [[1, 1], [1, 1]] = Inl PackError"
    by (rule encode_slot_empty) (simp add: l1 nz1)
  have inc: "increment_lengths [0, 0] [0, Suc 0] = Inr [1, 1]" by simp
  have "slots_loop example_net ?X [0, Suc 0] ([], [], [0, 0]) = Inl PackError"
    by (simp add: sl0 sl1 sh s0 s1 inc One_nat_def [symmetric] del: One_nat_def)
  then have "encode_sentences_words example_net ?X = Inl PackError"
    by (simp add: encode_sentences_words_def Let_def sh upt_0_2 numeral_2_eq_2)
  then show ?thesis by (rule forward_error)
qed

subsection \<open>Repacking to the batch size\<close>

text \<open>
  C5. For kept-row vectors, a batch size of at least one row and a kept-index set (one
  index per kept vector, the indices distinct and below the batch size),
  \<^verbatim>\<open>_repack_with_zero_seqs\<close> returns a tensor of exactly \<open>batch_size\<close> rows and of
  the width of the kept vectors, in which the row at a kept index is the kept vector
  assigned to that index and every other row is the all-zero vector of that width.
\<close>

theorem repack_with_zero_seqs_rows:
  assumes "0 < batch_size" "distinct indexes_nonzero"
    "length indexes_nonzero = length (t_rows seq_vectors)"
    "\<forall>i \<in> set indexes_nonzero. i < batch_size"
  shows "\<exists>repacked.
           repack_with_zero_seqs seq_vectors batch_size indexes_nonzero
              = Inr \<lparr>t_cols = t_cols seq_vectors, t_rows = repacked\<rparr>
           \<and> length repacked = batch_size
           \<and> (\<forall>k < length indexes_nonzero.
                 repacked ! (indexes_nonzero ! k) = t_rows seq_vectors ! k)
           \<and> (\<forall>i < batch_size. i \<notin> set indexes_nonzero \<longrightarrow>
                 repacked ! i = replicate (t_cols seq_vectors) 0)"
  using assms by (rule repack_ok)

text \<open>The kept-index set \<open>{1, 3}\<close> out of batch size 4 with the vectors
  \<open>[[1,1],[2,2]]\<close> gives \<open>[[0,0],[1,1],[0,0],[2,2]]\<close>.\<close>

theorem repack_with_zero_seqs_rows_witness:
  "repack_with_zero_seqs \<lparr>t_cols = 2, t_rows = [[1, 1], [2, 2]]\<rparr> 4 [1, 3]
     = Inr \<lparr>t_cols = 2, t_rows = [[0, 0], [1, 1], [0, 0], [2, 2]]\<rparr>"
proof -
  let ?t = "\<lparr>t_cols = 2, t_rows = [[1, 1], [2, 2 :: real]]\<rparr>"
  have "\<exists>repacked.
           repack_with_zero_seqs ?t 4 [1, 3] = Inr \<lparr>t_cols = t_cols ?t, t_rows = repacked\<rparr>
           \<and> length repacked = 4
           \<and> (\<forall>k < length [1 :: nat, 3]. repacked ! ([1, 3] ! k) = t_rows ?t ! k)
           \<and> (\<forall>i < 4. i \<notin> set [1 :: nat, 3] \<longrightarrow> repacked ! i = replicate (t_cols ?t) 0)"
    by (rule repack_with_zero_seqs_rows) simp_all
  then obtain r where r: "repack_with_zero_seqs ?t 4 [1, 3] = Inr \<lparr>t_cols = 2, t_rows = r\<rparr>"
      "length r = 4" "\<forall>k < 2. r ! ([1, 3] ! k) = [[1, 1], [2, 2]] ! k"
      "\<forall>i < 4. i \<notin> set [1 :: nat, 3] \<longrightarrow> r ! i = [0, 0]"
    by (auto simp: numeral_2_eq_2)
  have "r ! 1 = [1, 1]" "r ! 3 = [2, 2]"
    using r(3) [rule_format, of 0] r(3) [rule_format, of 1] by simp_all
  moreover have "r ! 0 = [0, 0]" "r ! 2 = [0, 0]"
    using r(4) [rule_format, of 0] r(4) [rule_format, of 2] by simp_all
  ultimately have "r = [[0, 0], [1, 1], [0, 0], [2, 2]]"
    using r(2) by (intro nth_equalityI) (auto simp: less_Suc_eq numeral_eq_Suc)
  then show ?thesis using r(1) by simp
qed

subsection \<open>The order of the kept rows\<close>

lemma torch_nonzero_positive:
  "torch_nonzero ls = filter (\<lambda>i. 0 < ls ! i) [0..<length ls]"
  by (simp add: torch_nonzero_def)

lemma some_row_kept:
  assumes "list_ex (\<lambda>row. 0 < get_seq_len p row) sw"
  shows "torch_nonzero (get_sequence_lengths sw p) \<noteq> []"
proof -
  obtain row where "row \<in> set sw" "0 < get_seq_len p row"
    using assms by (auto simp: list_ex_iff)
  then obtain b where b: "b < length sw" "0 < get_seq_len p (sw ! b)"
    by (auto simp: in_set_conv_nth)
  then have "b \<in> set (torch_nonzero (get_sequence_lengths sw p))"
    by (simp add: torch_nonzero_set get_sequence_lengths_nth)
  then show ?thesis by auto
qed

lemma unsort_restores:
  assumes "mset p = mset [0..<n]"
  shows "map (\<lambda>j. p ! j) (snd (torch_sort p False)) = [0..<n]"
proof (rule nth_equalityI)
  have "length p = n" using assms by (rule mset_length_nat)
  then show "length (map (\<lambda>j. p ! j) (snd (torch_sort p False))) = length [0..<n]"
    by (simp add: torch_sort_length)
next
  fix k assume "k < length (map (\<lambda>j. p ! j) (snd (torch_sort p False)))"
  moreover have "length p = n" using assms by (rule mset_length_nat)
  ultimately have k: "k < n" by (simp add: torch_sort_length)
  then show "map (\<lambda>j. p ! j) (snd (torch_sort p False)) ! k = [0..<n] ! k"
    using torch_sort_inverse [OF assms k] \<open>length p = n\<close> by (simp add: torch_sort_length)
qed

text \<open>
  C4. For every word-level slot with a non-empty row (and tokens of the vocabulary):
  the kept indexes are the indexes of the rows of measured length greater than 0, in
  ascending order; the descending sort of their lengths yields a permutation, and the
  second sort yields its inverse (selecting the sort permutation at the indices of the
  inverse gives the identity); and the tensor of encoded words that goes into the
  attention pool has, at position \<open>k\<close>, the encoding of the \<open>k\<close>-th kept row in the
  original order of the rows.
\<close>

theorem kept_rows_keep_their_order:
  fixes self :: han and sentence_words :: "int list list"
  defines "lengths \<equiv> get_sequence_lengths sentence_words (padding_idx self)"
  defines "kept \<equiv> filter (\<lambda>i. 0 < lengths ! i) [0..<length sentence_words]"
  defines "sorted_indices \<equiv> snd (torch_sort (map (\<lambda>i. lengths ! i) kept) True)"
  defines "unsorted_indices \<equiv> snd (torch_sort sorted_indices False)"
  assumes "in_vocab self sentence_words"
    and "list_ex (\<lambda>row. 0 < get_seq_len (padding_idx self) row) sentence_words"
  shows "get_nonzero_sequences sentence_words lengths
           = Inr (map (\<lambda>i. sentence_words ! i) kept, kept)
         \<and> sorted_wrt (<) kept
         \<and> sorted (rev (fst (torch_sort (map (\<lambda>i. lengths ! i) kept) True)))
         \<and> map (\<lambda>j. sorted_indices ! j) unsorted_indices = [0..<length kept]
         \<and> encode_words self sentence_words
             = Inr (map (\<lambda>i. row_encoding self (slot_max_len lengths) (sentence_words ! i)) kept,
                    kept)"
proof -
  have kept: "kept = torch_nonzero lengths"
    by (simp add: kept_def torch_nonzero_positive lengths_def)
  have ne: "torch_nonzero (get_sequence_lengths sentence_words (padding_idx self)) \<noteq> []"
    using assms(6) by (rule some_row_kept)
  have lt: "list_all (\<lambda>i. i < length sentence_words) kept"
    using torch_nonzero_bound [of _ lengths] by (auto simp: kept list_all_iff lengths_def)
  have g: "get_nonzero_sequences sentence_words lengths
           = Inr (map (\<lambda>i. sentence_words ! i) kept, kept)"
    using lt by (simp add: get_nonzero_sequences_def Let_def kept [symmetric] index_select_ok)
  have s: "sorted_wrt (<) kept" by (simp add: kept torch_nonzero_sorted)
  have perm: "mset sorted_indices = mset [0..<length kept]"
    using torch_sort_perm [of "map (\<lambda>i. lengths ! i) kept" True] by (simp add: sorted_indices_def)
  have u: "map (\<lambda>j. sorted_indices ! j) unsorted_indices = [0..<length kept]"
    unfolding unsorted_indices_def using perm by (rule unsort_restores)
  have e: "encode_words self sentence_words
             = Inr (map (\<lambda>i. row_encoding self (slot_max_len lengths) (sentence_words ! i)) kept,
                    kept)"
    using encode_words_ok [OF assms(5) ne] by (simp add: kept lengths_def)
  show ?thesis using g s u e torch_sort_desc_sorted by simp
qed

text \<open>Rows of lengths 3, 0, 5 and 1: the kept indexes are 0, 2, 3 in that order, the
  sort by descending length visits them as 2, 0, 3, and the encoded rows come back in
  the order 0, 2, 3.\<close>

theorem kept_rows_keep_their_order_witness:
  "get_sequence_lengths [[5,7,9,1,1], [1,1,1,1,1], [5,7,9,3,2], [5,1,1,1,1]] 1 = [3, 0, 5, 1]
   \<and> torch_sort [3, 5, 1] True = ([5, 3, 1], [1, 0, 2])
   \<and> map_sum id snd (encode_words example_net [[5,7,9,1,1], [1,1,1,1,1], [5,7,9,3,2], [5,1,1,1,1]])
       = Inr [0, 2, 3]"
proof -
  let ?sw = "[[5,7,9,1,1], [1,1,1,1,1], [5,7,9,3,2], [5,1,1,1,1 :: int]]"
  have l: "get_sequence_lengths ?sw 1 = [3, 0, 5, 1]"
    by (simp add: get_sequence_lengths_def get_seq_len_def)
  have p: "padding_idx example_net = 1" by (simp add: example_net_def)
  have k: "filter (\<lambda>i. 0 < [3, 0, 5, 1 :: nat] ! i) [0..<length ?sw] = [0, 2, 3]"
    by (simp add: upt_rec [of 0] upt_rec [of "Suc 0"] upt_rec [of 2] upt_rec [of 3] upt_rec [of 4]
        numeral_eq_Suc)
  have v: "in_vocab example_net ?sw" by (simp add: in_vocab_def example_net_def)
  have x: "list_ex (\<lambda>row. 0 < get_seq_len (padding_idx example_net) row) ?sw"
    by (simp add: p get_seq_len_def)
  have "encode_words example_net ?sw
          = Inr (map (\<lambda>i. row_encoding example_net (slot_max_len [3, 0, 5, 1]) (?sw ! i)) [0, 2, 3],
                 [0, 2, 3])"
    using kept_rows_keep_their_order [OF v x] unfolding p l k by blast
  moreover have "torch_sort [3, 5, 1] True = ([5, 3, 1], [1, 0, 2])"
    by (simp add: torch_sort_def Let_def upt_rec [of 0] upt_rec [of "Suc 0"] upt_rec [of 2] upt_rec [of 3]
        numeral_eq_Suc)
  ultimately show ?thesis using l by simp
qed

subsection \<open>The attention weights of a non-empty row\<close>

lemma row_encoding_nonempty:
  assumes "0 < get_seq_len (padding_idx self) row"
  shows "row_encoding self T row \<noteq> []"
proof -
  have "0 < length (take (get_seq_len (padding_idx self) row) row)"
    using assms get_seq_len_le [of "padding_idx self" row] by simp
  then have "0 < length (row_encoding self T row)"
    by (simp add: row_encoding_def Let_def)
  then show ?thesis by auto
qed

lemma attention_pool_softmax:
  assumes "batch_first a" "k < length X" "X ! k \<noteq> []"
  shows "sum_list (t_rows (snd (attention_forward a X)) ! k) = 1
         \<and> (\<forall>w \<in> set (t_rows (snd (attention_forward a X)) ! k). 0 \<le> w)"
  using assms softmax_nonneg by (simp add: attention_alpha softmax_sum)

text \<open>
  C9. For every row of a slot whose measured length is greater than 0, the attention
  weights that the word-level attention pool returns for that row, which are the row
  of the slot's attention weight array at the index of the row, are each non-negative
  and sum to 1 over the timesteps (the numbers are real numbers here).
\<close>

theorem attention_weights_distribution:
  assumes "constructed self" "in_vocab self sentence_words" "length sentence_words = batch_size"
    "b < batch_size" "0 < get_seq_len (padding_idx self) (sentence_words ! b)"
  shows "\<exists>sentence_vector sentence_alpha indexes_nonzero.
           encode_slot self batch_size sentence_words
              = Inr (sentence_vector, sentence_alpha, indexes_nonzero)
           \<and> b \<in> set indexes_nonzero
           \<and> sum_list (t_rows sentence_alpha ! b) = 1
           \<and> (\<forall>w \<in> set (t_rows sentence_alpha ! b). 0 \<le> w)"
proof -
  define lengths where "lengths = get_sequence_lengths sentence_words (padding_idx self)"
  define idx where "idx = torch_nonzero lengths"
  define T where "T = slot_max_len lengths"
  have b: "b \<in> set idx"
    using assms(3-5) by (simp add: idx_def lengths_def torch_nonzero_set get_sequence_lengths_nth)
  then have ne: "idx \<noteq> []" by auto
  obtain sv sa where r: "encode_slot self batch_size sentence_words = Inr (sv, sa, idx)"
      "\<forall>k < length idx. t_rows sa ! (idx ! k)
           = softmax (map (score (word_attention self)) (row_encoding self T (sentence_words ! (idx ! k))))"
    using encode_slot_ok [OF assms(1,2) _ assms(3)] ne
    unfolding idx_def lengths_def T_def by blast
  obtain k where k: "k < length idx" "idx ! k = b" using b by (auto simp: in_set_conv_nth)
  define zs where "zs = map (score (word_attention self)) (row_encoding self T (sentence_words ! b))"
  have row: "t_rows sa ! b = softmax zs" using r(2) k by (auto simp: zs_def)
  have "zs \<noteq> []" using row_encoding_nonempty [OF assms(5)] by (simp add: zs_def)
  then have "sum_list (t_rows sa ! b) = 1" by (simp add: row softmax_sum)
  moreover have "\<forall>w \<in> set (t_rows sa ! b). 0 \<le> w" using softmax_nonneg by (simp add: row)
  ultimately show ?thesis using r(1) b by blast
qed

theorem attention_weights_distribution_witness:
  "\<exists>sentence_vector sentence_alpha indexes_nonzero.
     encode_slot example_net 2 [[5, 7], [1, 1]] = Inr (sentence_vector, sentence_alpha, indexes_nonzero)
     \<and> 0 \<in> set indexes_nonzero
     \<and> sum_list (t_rows sentence_alpha ! 0) = 1"
proof -
  have v: "in_vocab example_net [[5, 7], [1, 1]]" by (simp add: in_vocab_def example_net_def)
  have l: "length [[5, 7], [1, 1 :: int]] = 2" by simp
  have p: "0 < get_seq_len (padding_idx example_net) ([[5, 7], [1, 1]] ! 0)"
    by (simp add: example_net_def get_seq_len_def)
  show ?thesis
    using attention_weights_distribution [OF example_net_constructed v l _ p] by auto
qed

subsection \<open>A single kept row, and the constructor\<close>

lemma torch_sort_singleton: "torch_sort [l] d = ([l], [0])"
  by (simp add: torch_sort_def)

text \<open>
  C10 (as amended). Whenever exactly one row of a slot is kept, the word-level encode
  completes without an error (for tokens of the vocabulary) and returns the encoding of
  that row. The kept indexes are a one-dimensional tensor of one element, so the test
  \<^verbatim>\<open>indexes_nonzero.dim() > 0\<close> holds and the batch is built by the sort branch:
  \<^verbatim>\<open>torch.sort\<close> runs on the singleton, returns the length unchanged with the
  permutation \<open>[0]\<close>, and the row is selected through that permutation.
\<close>

theorem single_kept_row_is_sorted:
  fixes self :: han and sentence_words :: "int list list"
  defines "lengths \<equiv> get_sequence_lengths sentence_words (padding_idx self)"
  assumes "in_vocab self sentence_words" and "torch_nonzero lengths = [i]"
  shows "get_nonzero_sequences sentence_words lengths = Inr ([sentence_words ! i], [i])
         \<and> 0 < tensor_dim [i]
         \<and> torch_sort [lengths ! i] True = ([lengths ! i], [0])
         \<and> sort_nonzero [lengths ! i] [i] [sentence_words ! i]
              = Inr ([lengths ! i], [0], [sentence_words ! i])
         \<and> encode_words self sentence_words
              = Inr ([row_encoding self (slot_max_len lengths) (sentence_words ! i)], [i])"
proof -
  have i: "i < length sentence_words"
    using torch_nonzero_bound [of i lengths] assms(3) by (simp add: lengths_def)
  have g: "get_nonzero_sequences sentence_words lengths = Inr ([sentence_words ! i], [i])"
    using i assms(3) by (simp add: get_nonzero_sequences_def Let_def index_select_def)
  have s: "sort_nonzero [lengths ! i] [i] [sentence_words ! i]
              = Inr ([lengths ! i], [0], [sentence_words ! i])"
    by (simp add: sort_nonzero_def tensor_dim_def torch_sort_singleton index_select_def)
  have ne: "torch_nonzero (get_sequence_lengths sentence_words (padding_idx self)) \<noteq> []"
    using assms(3) by (simp add: lengths_def)
  have e: "encode_words self sentence_words
              = Inr ([row_encoding self (slot_max_len lengths) (sentence_words ! i)], [i])"
    using encode_words_ok [OF assms(2) ne] assms(3) by (simp add: lengths_def)
  show ?thesis using g s e by (simp add: tensor_dim_def torch_sort_singleton)
qed

theorem single_kept_row_is_sorted_witness:
  "get_nonzero_sequences [[1, 1], [5, 7]] [0, 2] = Inr ([[5, 7 :: int]], [1])
   \<and> sort_nonzero [2] [1] [[5, 7 :: int]] = Inr ([2], [0], [[5, 7]])
   \<and> map_sum id snd (encode_words example_net [[1, 1], [5, 7]]) = Inr [1]"
proof -
  have l: "get_sequence_lengths [[1, 1], [5, 7]] (padding_idx example_net) = [0, 2]"
    by (simp add: get_sequence_lengths_def get_seq_len_def example_net_def)
  have v: "in_vocab example_net [[1, 1], [5, 7]]" by (simp add: in_vocab_def example_net_def)
  have n: "torch_nonzero (get_sequence_lengths [[1, 1], [5, 7]] (padding_idx example_net)) = [1]"
    by (simp add: l torch_nonzero_def upt_0_2)
  show ?thesis
    using single_kept_row_is_sorted [OF v n] by (simp add: l)
qed

text \<open>The claim as stated fails on a slot of two rows of which only the second is kept:
  the test on the dimension holds and the batch comes from the sort branch, whose
  \<open>sorted_indices\<close> are the sort's permutation \<open>[0]\<close>; the no-sort branch would
  hand on the kept indexes \<open>[1]\<close> instead.\<close>

theorem single_kept_row_counterexample:
  "get_nonzero_sequences [[1, 1], [5, 7]] (get_sequence_lengths [[1, 1], [5, 7]] 1)
     = Inr ([[5, 7]], [1])
   \<and> 0 < tensor_dim [1]
   \<and> sort_nonzero [2] [1] [[5, 7 :: int]] = Inr ([2], snd (torch_sort [2] True), [[5, 7]])
   \<and> sort_nonzero [2] [1] [[5, 7 :: int]] \<noteq> Inr ([2], [1], [[5, 7]])"
  by (simp add: get_nonzero_sequences_def Let_def get_sequence_lengths_def get_seq_len_def
      torch_nonzero_def upt_0_2 index_select_def sort_nonzero_def tensor_dim_def
      torch_sort_singleton)

text \<open>
  C8. The constructor with a pretrained embedding table supplied: the statement
  \<^verbatim>\<open>self.embed.data.weight.copy_(embedding_weights)\<close> looks up \<open>data\<close> on the
  embedding module, which has no such attribute, so the constructor raises
  \<^verbatim>\<open>AttributeError\<close> for every table; no network is built.
\<close>

theorem init_with_embedding_weights_raises:
  "init fresh (Some embedding_weights) = Inl AttributeError
   \<and> init fresh None = Inr fresh"
  by (simp add: init_def embedding_getattr_def)

subsection \<open>The sentence-level stage\<close>

lemma example_row_encoding:
  "row_encoding example_net 2 [5, 7] = [[0, 0], [0, 0]]"
  "row_encoding example_net (Suc 0) [5, 1] = [[0, 0]]"
  by (simp_all add: row_encoding_def Let_def gru_sequence_def example_net_def get_seq_len_def
      numeral_2_eq_2)

lemma example_attention_words:
  "attention_forward example_attention [[[0, 0], [0, 0]], [[0, 0], [0, 0]]]
     = (\<lparr>t_cols = 2, t_rows = [[0, 0], [0, 0]]\<rparr>, \<lparr>t_cols = 2, t_rows = [[1/2, 1/2], [1/2, 1/2]]\<rparr>)"
  "attention_forward example_attention [[[0, 0]]]
     = (\<lparr>t_cols = 2, t_rows = [[0, 0]]\<rparr>, \<lparr>t_cols = 1, t_rows = [[1]]\<rparr>)"
  by (simp_all add: attention_forward_def Let_def example_attention_def linear_layer_def dot_def
      softmax_def sum_timesteps_def numeral_2_eq_2)

lemma example_attention_sentences:
  "attention_forward example_attention [[[1, 2], [2, 1]], [[1, 2], [2, 1]]]
     = (\<lparr>t_cols = 2, t_rows = [[3/2, 3/2], [3/2, 3/2]]\<rparr>,
        \<lparr>t_cols = 2, t_rows = [[1/2, 1/2], [1/2, 1/2]]\<rparr>)"
  by (simp add: attention_forward_def Let_def example_attention_def linear_layer_def dot_def
      softmax_def sum_timesteps_def numeral_2_eq_2)

lemma example_sentence_encoder:
  "gru_sequence (sentence_encoder example_net) [[0, 0], [0, 0]] = [[1, 2], [2, 1]]"
  "gru_sequence (sentence_encoder example_net) [[0, 0]] = [[1, 1]]"
  by (simp_all add: gru_sequence_def example_net_def)


lemma two_documents_slot0:
  "encode_slot example_net 2 [[5, 7], [5, 7]]
     = Inr (\<lparr>t_cols = 2, t_rows = [[0, 0], [0, 0]]\<rparr>,
            \<lparr>t_cols = 2, t_rows = [[1/2, 1/2], [1/2, 1/2]]\<rparr>, [0, Suc 0])"
proof -
  have l: "get_sequence_lengths [[5, 7], [5, 7]] (padding_idx example_net) = [2, 2]"
    by (simp add: get_sequence_lengths_def get_seq_len_def example_net_def)
  have n: "torch_nonzero [2, 2] = [0, Suc 0]" by (simp add: torch_nonzero_def upt_0_2)
  have m: "slot_max_len [2, 2] = 2" by (simp add: slot_max_len_def)
  have v: "in_vocab example_net [[5, 7], [5, 7]]" by (simp add: in_vocab_def example_net_def)
  have "encode_words example_net [[5, 7], [5, 7]]
          = Inr ([[[0, 0], [0, 0]], [[0, 0], [0, 0]]], [0, Suc 0])"
    using encode_words_ok [OF v] by (simp add: l n m example_row_encoding)
  moreover have "word_attention example_net = example_attention" by (simp add: example_net_def)
  ultimately show ?thesis
    by (simp add: encode_slot_def example_attention_words repack_with_zero_seqs_def Let_def
        numeral_2_eq_2)
qed

lemma two_documents_slot1:
  "encode_slot example_net 2 [[5, 1], [1, 1]]
     = Inr (\<lparr>t_cols = 2, t_rows = [[0, 0], [0, 0]]\<rparr>, \<lparr>t_cols = 1, t_rows = [[1], [0]]\<rparr>, [0])"
proof -
  have l: "get_sequence_lengths [[5, 1], [1, 1]] (padding_idx example_net) = [Suc 0, 0]"
    by (simp add: get_sequence_lengths_def get_seq_len_def example_net_def)
  have n: "torch_nonzero [Suc 0, 0] = [0]" by (simp add: torch_nonzero_def upt_0_2)
  have m: "slot_max_len [Suc 0, 0] = Suc 0" by (simp add: slot_max_len_def)
  have v: "in_vocab example_net [[5, 1], [1, 1]]" by (simp add: in_vocab_def example_net_def)
  have "encode_words example_net [[5, 1], [1, 1]] = Inr ([[[0, 0]]], [0])"
    using encode_words_ok [OF v] by (simp add: l n m example_row_encoding)
  moreover have "word_attention example_net = example_attention" by (simp add: example_net_def)
  ultimately show ?thesis
    by (simp add: encode_slot_def example_attention_words repack_with_zero_seqs_def Let_def
        numeral_2_eq_2)
qed

lemma two_documents_word_level:
  "encode_sentences_words example_net two_documents
     = Inr ([[[0, 0], [0, 0]], [[0, 0], [0, 0]]],
            [\<lparr>t_cols = 2, t_rows = [[1/2, 1/2], [1/2, 1/2]]\<rparr>, \<lparr>t_cols = 1, t_rows = [[1], [0]]\<rparr>],
            [2, 1])"
proof -
  have sl: "slot two_documents 0 = [[5, 7], [5, 7]]" "slot two_documents (Suc 0) = [[5, 1], [1, 1]]"
    and sh: "shape0 two_documents = 2" "shape1 two_documents = 2"
    by (simp_all add: slot_def two_documents_def)
  have "slots_loop example_net two_documents [0, Suc 0] ([], [], [0, 0])
          = Inr ([\<lparr>t_cols = 2, t_rows = [[0, 0], [0, 0]]\<rparr>, \<lparr>t_cols = 2, t_rows = [[0, 0], [0, 0]]\<rparr>],
                 [\<lparr>t_cols = 2, t_rows = [[1/2, 1/2], [1/2, 1/2]]\<rparr>, \<lparr>t_cols = 1, t_rows = [[1], [0]]\<rparr>],
                 [2, 1])"
    by (simp add: sl sh two_documents_slot0 two_documents_slot1)
  then show ?thesis
    by (simp add: encode_sentences_words_def Let_def sh upt_0_2 numeral_2_eq_2 torch_cat_dim1_def)
qed

text \<open>
  C1. The forward pass takes the observed sentence counts from
  \<^verbatim>\<open>encode_sentences_words\<close> and does not use them: the sentence encoder is applied
  to the accumulated tensor as it is. On the two documents the counts are 2 and 1, and
  the encoder runs over both slots of both documents: for the second document, whose
  only sentence is in the first slot, the hidden states are those of two timesteps
  (\<open>[[1,2],[2,1]]\<close>, the backward state of the first slot having passed the padded
  slot), where a run over its one observed sentence gives \<open>[[1,1]]\<close>; its logit is
  that of the first document.
\<close>

theorem forward_runs_over_padded_slot:
  "map_sum id (\<lambda>(enc, alphas, sentence_lengths). map sint sentence_lengths)
      (encode_sentences_words example_net two_documents) = Inr [2, 1]
   \<and> forward example_net two_documents
       = Inr ([[3/2], [3/2]],
              [\<lparr>t_cols = 2, t_rows = [[1/2, 1/2], [1/2, 1/2]]\<rparr>, \<lparr>t_cols = 1, t_rows = [[1], [0]]\<rparr>],
              \<lparr>t_cols = 2, t_rows = [[1/2, 1/2], [1/2, 1/2]]\<rparr>)
   \<and> gru_sequence (sentence_encoder example_net) [[0, 0], [0, 0]] = [[1, 2], [2, 1]]
   \<and> gru_sequence (sentence_encoder example_net) [[0, 0]] = [[1, 1]]"
proof -
  have "sentence_attention example_net = example_attention"
      "out_weight example_net = [[1, 0]]" "out_bias example_net = [0]"
    by (simp_all add: example_net_def)
  then have "forward example_net two_documents
       = Inr ([[3/2], [3/2]],
              [\<lparr>t_cols = 2, t_rows = [[1/2, 1/2], [1/2, 1/2]]\<rparr>, \<lparr>t_cols = 1, t_rows = [[1], [0]]\<rparr>],
              \<lparr>t_cols = 2, t_rows = [[1/2, 1/2], [1/2, 1/2]]\<rparr>)"
    by (simp add: forward_def two_documents_word_level example_sentence_encoder
        example_attention_sentences linear_layer_def dot_def)
  then show ?thesis
    by (simp add: two_documents_word_level example_sentence_encoder)
qed

end
